theory Spec2Isabelle
  imports Main "HOL-Library.Multiset"
begin

section \<open>The DOM as the daemon sees it\<close>

text \<open>
  The hook \<open>useEditorHTMLDaemon\<close> works on two DOM trees: the live document that holds the
  watched element, and the detached mirror document. A node is a value with an identity
  (\<open>ident\<close>, standing for JavaScript object identity), a kind and its child list. The live
  side is a store of trees: the document and every detached subtree, since a mutation record
  keeps references to nodes that are no longer attached.
\<close>

type_synonym nid = nat

datatype nkind =
    DocumentNode
  | ElementNode string string string  \<comment> \<open>nodeName (= tagName), id, className\<close>
  | TextNode string
  | CommentNode string

datatype dnode = DNode (ident: nid) (kind: nkind) (childNodes: "dnode list")

type_synonym dom = "dnode list"

datatype exn = NotFoundError | HierarchyRequestError | SyntaxError | TypeError

fun nodeType :: "dnode \<Rightarrow> nat" where
  "nodeType (DNode _ (ElementNode _ _ _) _) = 1"
| "nodeType (DNode _ (TextNode _) _) = 3"
| "nodeType (DNode _ (CommentNode _) _) = 8"
| "nodeType (DNode _ DocumentNode _) = 9"

definition TEXT_NODE :: nat where
  "TEXT_NODE = 3"

fun nodeName :: "dnode \<Rightarrow> string" where
  "nodeName (DNode _ (ElementNode nm _ _) _) = nm"
| "nodeName (DNode _ (TextNode _) _) = ''#text''"
| "nodeName (DNode _ (CommentNode _) _) = ''#comment''"
| "nodeName (DNode _ DocumentNode _) = ''#document''"

text \<open>\<open>id\<close>, \<open>className\<close> and \<open>tagName\<close> are properties of elements only; on any other node
  the JavaScript read gives \<open>undefined\<close>, here \<open>None\<close>.\<close>

fun id_of :: "dnode \<Rightarrow> string option" where
  "id_of (DNode _ (ElementNode _ i _) _) = Some i"
| "id_of _ = None"

fun className :: "dnode \<Rightarrow> string option" where
  "className (DNode _ (ElementNode _ _ c) _) = Some c"
| "className _ = None"

fun tagName :: "dnode \<Rightarrow> string option" where
  "tagName (DNode _ (ElementNode nm _ _) _) = Some nm"
| "tagName _ = None"

fun text_data :: "dnode \<Rightarrow> string" and text_data_list :: "dnode list \<Rightarrow> string" where
  "text_data (DNode _ (TextNode d) _) = d"
| "text_data (DNode _ (CommentNode _) _) = []"
| "text_data (DNode _ (ElementNode _ _ _) ks) = text_data_list ks"
| "text_data (DNode _ DocumentNode ks) = text_data_list ks"
| "text_data_list [] = []"
| "text_data_list (k # ks) = text_data k @ text_data_list ks"

text \<open>The \<open>textContent\<close> getter: the data of a text or comment node, the concatenated text
  of the descendants of an element, \<open>null\<close> for a document.\<close>

fun textContent :: "dnode \<Rightarrow> string option" where
  "textContent (DNode _ DocumentNode _) = None"
| "textContent (DNode _ (CommentNode d) _) = Some d"
| "textContent n = Some (text_data n)"

subsection \<open>Finding a node in the store\<close>

text \<open>\<open>chain F n\<close> is the node with identity \<open>n\<close> followed by its ancestors, nearest first:
  what following \<open>parentNode\<close> from the node visits. It is empty when the store has no such
  node.\<close>

fun chain_in :: "nid \<Rightarrow> dnode \<Rightarrow> dnode list" and chain :: "dom \<Rightarrow> nid \<Rightarrow> dnode list" where
  "chain_in n (DNode i k ks) =
     (if i = n then [DNode i k ks]
      else (case chain ks n of [] \<Rightarrow> [] | c # cs \<Rightarrow> (c # cs) @ [DNode i k ks]))"
| "chain [] n = []"
| "chain (t # ts) n = (case chain_in n t of [] \<Rightarrow> chain ts n | c # cs \<Rightarrow> c # cs)"

definition lookup :: "dom \<Rightarrow> nid \<Rightarrow> dnode option" where
  "lookup F n = (case chain F n of [] \<Rightarrow> None | c # _ \<Rightarrow> Some c)"

definition parentNode_of :: "dom \<Rightarrow> nid \<Rightarrow> nid option" where
  "parentNode_of F n = (case chain F n of _ # p # _ \<Rightarrow> Some (ident p) | _ \<Rightarrow> None)"

definition nextSibling_of :: "dom \<Rightarrow> nid \<Rightarrow> nid option" where
  "nextSibling_of F n =
     (case chain F n of
        _ # p # _ \<Rightarrow>
          (case dropWhile (\<lambda>s. ident s \<noteq> n) (childNodes p) of
             _ # s # _ \<Rightarrow> Some (ident s) | _ \<Rightarrow> None)
      | _ \<Rightarrow> None)"

fun ids :: "dnode \<Rightarrow> nid list" and ids_list :: "dnode list \<Rightarrow> nid list" where
  "ids (DNode i k ks) = i # ids_list ks"
| "ids_list [] = []"
| "ids_list (t # ts) = ids t @ ids_list ts"

subsection \<open>removeChild and insertBefore on the live store\<close>

fun prune :: "nid \<Rightarrow> dnode \<Rightarrow> dnode" and prune_list :: "nid \<Rightarrow> dnode list \<Rightarrow> dnode list" where
  "prune n (DNode i k ks) = DNode i k (prune_list n ks)"
| "prune_list n [] = []"
| "prune_list n (t # ts) = (if ident t = n then prune_list n ts else prune n t # prune_list n ts)"

fun insert_before :: "dnode \<Rightarrow> nid option \<Rightarrow> dnode list \<Rightarrow> dnode list" where
  "insert_before s None ks = ks @ [s]"
| "insert_before s (Some r) [] = [s]"
| "insert_before s (Some r) (k # ks) =
     (if ident k = r then s # k # ks else k # insert_before s (Some r) ks)"

fun graft :: "nid \<Rightarrow> dnode \<Rightarrow> nid option \<Rightarrow> dnode \<Rightarrow> dnode"
  and graft_list :: "nid \<Rightarrow> dnode \<Rightarrow> nid option \<Rightarrow> dnode list \<Rightarrow> dnode list" where
  "graft t s r (DNode i k ks) =
     (if i = t then DNode i k (insert_before s r ks) else DNode i k (graft_list t s r ks))"
| "graft_list t s r [] = []"
| "graft_list t s r (c # cs) = graft t s r c # graft_list t s r cs"

text \<open>A subtree that is detached stays in the store as a tree of its own. The order of the
  trees of the store has no meaning; they are kept ordered by the identity of their top
  node, so that two stores holding the same trees are equal.\<close>

definition detached :: "dnode \<Rightarrow> dom \<Rightarrow> dom" where
  "detached s F = insort_key ident s F"

text \<open>\<open>parent.removeChild(child)\<close>: \<open>NotFoundError\<close> unless \<open>child\<close> is a child of \<open>parent\<close>.\<close>

definition removeChild :: "dom \<Rightarrow> nid \<Rightarrow> nid \<Rightarrow> exn + dom" where
  "removeChild F parent child =
     (case lookup F child of
        None \<Rightarrow> Inl TypeError
      | Some c \<Rightarrow>
          if parentNode_of F child \<noteq> Some parent then Inl NotFoundError
          else Inr (detached c (prune_list child F)))"

text \<open>\<open>parent.insertBefore(node, child)\<close> with the checks of the DOM's pre-insertion
  validity that concern this program: the parent must be able to have children, the node
  must not be an inclusive ancestor of the parent nor a document, and a non-null \<open>child\<close>
  must be a child of the parent. The node leaves its old place before it is inserted. (The
  constraints on the children of a document node are not modelled.)\<close>

definition insertBefore :: "dom \<Rightarrow> nid \<Rightarrow> nid \<Rightarrow> nid option \<Rightarrow> exn + dom" where
  "insertBefore F parent node child =
     (case (lookup F parent, lookup F node) of
        (Some p, Some nd) \<Rightarrow>
          if nodeType p \<noteq> 1 \<and> nodeType p \<noteq> 9 then Inl HierarchyRequestError
          else if node \<in> set (map ident (chain F parent)) then Inl HierarchyRequestError
          else if (case child of None \<Rightarrow> False | Some c \<Rightarrow> parentNode_of F c \<noteq> Some parent)
            then Inl NotFoundError
          else if nodeType nd = 9 then Inl HierarchyRequestError
          else
            (let referenceChild = (if child = Some node then nextSibling_of F node else child)
             in Inr (graft_list parent nd referenceChild (prune_list node F)))
      | _ \<Rightarrow> Inl TypeError)"

section \<open>Addresses: getXPathFromNode\<close>

text \<open>\<open>String.toLowerCase\<close> on the ASCII letters (node names are ASCII).\<close>

definition toLowerCase_char :: "char \<Rightarrow> char" where
  "toLowerCase_char c =
     (let n = (of_char c :: nat) in if 65 \<le> n \<and> n \<le> 90 then char_of (n + 32) else c)"

definition toLowerCase :: "string \<Rightarrow> string" where
  "toLowerCase s = map toLowerCase_char s"

text \<open>The decimal text of a number, as string concatenation with a number produces it.\<close>

function string_of_nat :: "nat \<Rightarrow> string" where
  "string_of_nat n =
     (if n < 10 then [char_of (48 + n)]
      else string_of_nat (n div 10) @ [char_of (48 + n mod 10)])"
  by pat_completeness auto
termination
  by (relation "measure id") auto

declare string_of_nat.simps [simp del]

text \<open>The previous siblings of a node, nearest first: what the \<open>while (sibling)\<close> loop
  visits through \<open>previousSibling\<close>. \<open>up\<close> is the ancestor chain of the node.\<close>

definition previousSiblings :: "dnode \<Rightarrow> dnode list \<Rightarrow> dnode list" where
  "previousSiblings node up =
     (case up of
        [] \<Rightarrow> []
      | parent # _ \<Rightarrow> rev (takeWhile (\<lambda>s. ident s \<noteq> ident node) (childNodes parent)))"

fun count_text_siblings :: "dnode list \<Rightarrow> nat \<Rightarrow> nat" where
  "count_text_siblings [] textNodeIndex = textNodeIndex"
| "count_text_siblings (sibling # rest) textNodeIndex =
     count_text_siblings rest
       (if nodeType sibling = TEXT_NODE then textNodeIndex + 1 else textNodeIndex)"

text \<open>The \<open>for\<close> loop over \<open>parent.childNodes\<close>: \<open>Some nodeCount\<close> when it reaches the node,
  \<open>None\<close> when it runs off the end.\<close>

fun count_same_name :: "dnode \<Rightarrow> dnode list \<Rightarrow> nat \<Rightarrow> nat option" where
  "count_same_name node [] nodeCount = None"
| "count_same_name node (sibling # rest) nodeCount =
     (if ident sibling = ident node then Some nodeCount
      else count_same_name node rest
        (if nodeType sibling = 1 \<and> nodeName sibling = nodeName node
         then nodeCount + 1 else nodeCount))"

definition has_id :: "dnode \<Rightarrow> bool" where
  "has_id node = (case id_of node of Some i \<Rightarrow> i \<noteq> [] | None \<Rightarrow> False)"

definition id_string :: "dnode \<Rightarrow> string" where
  "id_string node = (case id_of node of Some i \<Rightarrow> i | None \<Rightarrow> [])"

text \<open>\<open>getXPathFromNode\<close> on the node followed by its ancestors; \<open>w\<close> is
  \<open>WatchElementRef.current\<close>. The recursive call on \<open>parent\<close> is the call on the rest of the
  chain.\<close>

fun getXPathFromChain :: "dnode \<Rightarrow> dnode list \<Rightarrow> string" where
  "getXPathFromChain w [] = []"
| "getXPathFromChain w (node # up) =
     (if has_id node then ''//*[@id='' @ [CHR 0x22] @ id_string node @ [CHR 0x22] @ '']''
      else if className node = className w \<and> tagName node = tagName w then ''//body''
      else if nodeType node = TEXT_NODE then
        (let textNodeIndex = count_text_siblings (previousSiblings node up) 1 in
         case up of
           parent # _ \<Rightarrow>
             getXPathFromChain w up @ ''/text()'' @ ''['' @ string_of_nat textNodeIndex @ '']''
         | [] \<Rightarrow> ''text()'' @ ''['' @ string_of_nat textNodeIndex @ '']'')
      else
        (case up of
           [] \<Rightarrow> []
         | parent # _ \<Rightarrow>
             (case count_same_name node (childNodes parent) 0 of
                Some nodeCount \<Rightarrow>
                  getXPathFromChain w up @ ''/'' @ toLowerCase (nodeName node)
                    @ ''['' @ string_of_nat (nodeCount + 1) @ '']''
              | None \<Rightarrow> [])))"

definition getXPathFromNode :: "dom \<Rightarrow> nid option \<Rightarrow> nid \<Rightarrow> string" where
  "getXPathFromNode F watched node =
     (case watched of
        None \<Rightarrow> []
      | Some r \<Rightarrow>
          (case lookup F r of
             None \<Rightarrow> []
           | Some w \<Rightarrow> getXPathFromChain w (chain F node)))"

section \<open>Resolving an address: getNodeFromXPath\<close>

text \<open>
  \<open>getNodeFromXPath\<close> hands the string to the platform's \<open>document.evaluate\<close> and takes the
  first node of the result in document order. The evaluator is modelled for the location
  paths that \<open>getXPathFromNode\<close> writes: a start (\<open>//body\<close>, \<open>//*[@id="..."]\<close>, or the
  document itself for a path with neither), then child steps \<open>/name[k]\<close> and \<open>/text()[k]\<close>.
  Any other string is reported as the \<open>SyntaxError\<close> that \<open>evaluate\<close> throws on a malformed
  expression. A node of the mirror is referred to by its position, the list of child
  indices from the document node; a position stays good as long as the tree is not changed,
  which is how the replay uses it.
\<close>

datatype xstart = XBody | XId string | XRoot

datatype xstep = XText nat | XElem string nat

definition is_digit :: "char \<Rightarrow> bool" where
  "is_digit c = (48 \<le> (of_char c :: nat) \<and> (of_char c :: nat) \<le> 57)"

text \<open>The characters of a name: digits, letters, and the codes 45, 95 and 46 of hyphen,
  underscore and full stop.\<close>

definition is_name_char :: "char \<Rightarrow> bool" where
  "is_name_char c =
     (let n = (of_char c :: nat) in
        (48 \<le> n \<and> n \<le> 57) \<or> (65 \<le> n \<and> n \<le> 90) \<or> (97 \<le> n \<and> n \<le> 122)
        \<or> n = 45 \<or> n = 95 \<or> n = 46)"

fun nat_of_digits :: "string \<Rightarrow> nat \<Rightarrow> nat" where
  "nat_of_digits [] acc = acc"
| "nat_of_digits (c # cs) acc = nat_of_digits cs (10 * acc + ((of_char c :: nat) - 48))"

definition parse_index :: "string \<Rightarrow> nat option" where
  "parse_index s =
     (case s of
        [] \<Rightarrow> None
      | b # r \<Rightarrow>
          if b = CHR ''['' \<and> r \<noteq> [] \<and> last r = CHR '']'' \<and> butlast r \<noteq> []
             \<and> list_all is_digit (butlast r)
          then Some (nat_of_digits (butlast r) 0) else None)"

definition parse_step :: "string \<Rightarrow> xstep option" where
  "parse_step seg =
     (let nm = takeWhile (\<lambda>c. c \<noteq> CHR ''['') seg;
          pr = dropWhile (\<lambda>c. c \<noteq> CHR ''['') seg
      in case parse_index pr of
           None \<Rightarrow> None
         | Some k \<Rightarrow>
             if nm = ''text()'' then Some (XText k)
             else if nm \<noteq> [] \<and> list_all is_name_char nm then Some (XElem nm k)
             else None)"

fun split_on :: "char \<Rightarrow> string \<Rightarrow> string list" where
  "split_on d [] = [[]]"
| "split_on d (c # cs) =
     (if c = d then [] # split_on d cs
      else (case split_on d cs of x # xs \<Rightarrow> (c # x) # xs | [] \<Rightarrow> [[c]]))"

fun parse_segments :: "string list \<Rightarrow> xstep list option" where
  "parse_segments [] = Some []"
| "parse_segments (seg # segs) =
     (case parse_step seg of
        None \<Rightarrow> None
      | Some st \<Rightarrow> (case parse_segments segs of None \<Rightarrow> None | Some sts \<Rightarrow> Some (st # sts)))"

definition parse_steps :: "xstart \<Rightarrow> string \<Rightarrow> (xstart \<times> xstep list) option" where
  "parse_steps st r =
     (if r = [] then Some (st, [])
      else (case split_on (CHR ''/'') r of
              [] # segs \<Rightarrow> (case parse_segments segs of None \<Rightarrow> None | Some sts \<Rightarrow> Some (st, sts))
            | _ \<Rightarrow> None))"

definition parse_xpath :: "string \<Rightarrow> (xstart \<times> xstep list) option" where
  "parse_xpath s =
     (if s = [] then None
      else if take 6 s = ''//body'' then parse_steps XBody (drop 6 s)
      else if take 9 s = ''//*[@id='' @ [CHR 0x22] then
        (let r = drop 9 s;
             i = takeWhile (\<lambda>c. c \<noteq> CHR 0x22) r;
             t = dropWhile (\<lambda>c. c \<noteq> CHR 0x22) r
         in if take 2 t = [CHR 0x22] @ '']'' then parse_steps (XId i) (drop 2 t) else None)
      else if hd s = CHR ''/'' then parse_steps XRoot s
      else parse_steps XRoot (CHR ''/'' # s))"

fun node_at :: "dnode \<Rightarrow> nat list \<Rightarrow> dnode option" where
  "node_at d [] = Some d"
| "node_at d (i # p) =
     (if i < length (childNodes d) then node_at (childNodes d ! i) p else None)"

text \<open>All positions of a tree in document order.\<close>

fun paths :: "dnode \<Rightarrow> nat list list" and paths_list :: "nat \<Rightarrow> dnode list \<Rightarrow> nat list list" where
  "paths (DNode n k ks) = [] # paths_list 0 ks"
| "paths_list i [] = []"
| "paths_list i (c # cs) = map ((#) i) (paths c) @ paths_list (Suc i) cs"

definition is_element :: "dnode \<Rightarrow> bool" where
  "is_element n = (nodeType n = 1)"

definition name_matches :: "string \<Rightarrow> dnode \<Rightarrow> bool" where
  "name_matches nm n = (is_element n \<and> toLowerCase (nodeName n) = toLowerCase nm)"

text \<open>A child step with a numeric predicate: the child at index \<open>i\<close> passes the node test
  and is the \<open>k\<close>-th child that does.\<close>

fun step_ok :: "xstep \<Rightarrow> dnode list \<Rightarrow> nat \<Rightarrow> bool" where
  "step_ok (XText k) ks i =
     (i < length ks \<and> nodeType (ks ! i) = TEXT_NODE
      \<and> Suc (length (filter (\<lambda>c. nodeType c = TEXT_NODE) (take i ks))) = k)"
| "step_ok (XElem nm k) ks i =
     (i < length ks \<and> name_matches nm (ks ! i)
      \<and> Suc (length (filter (name_matches nm) (take i ks))) = k)"

fun start_ok :: "dnode \<Rightarrow> xstart \<Rightarrow> nat list \<Rightarrow> bool" where
  "start_ok doc XRoot q = (q = [])"
| "start_ok doc XBody q =
     (q \<noteq> [] \<and> (case node_at doc q of None \<Rightarrow> False | Some n \<Rightarrow> name_matches ''body'' n))"
| "start_ok doc (XId x) q =
     (x \<noteq> [] \<and> (case node_at doc q of None \<Rightarrow> False | Some n \<Rightarrow> id_of n = Some x))"

fun steps_ok :: "dnode \<Rightarrow> nat list \<Rightarrow> xstep list \<Rightarrow> nat list \<Rightarrow> bool" where
  "steps_ok doc q [] [] = True"
| "steps_ok doc q (s # ss) (i # r) =
     (case node_at doc q of
        None \<Rightarrow> False
      | Some par \<Rightarrow> step_ok s (childNodes par) i \<and> steps_ok doc (q @ [i]) ss r)"
| "steps_ok doc q _ _ = False"

text \<open>The position \<open>p\<close> is selected by the path: the start matches at a prefix of \<open>p\<close> and the
  steps lead from there to \<open>p\<close>.\<close>

definition sel :: "dnode \<Rightarrow> xstart \<times> xstep list \<Rightarrow> nat list \<Rightarrow> bool" where
  "sel doc xp p =
     (length (snd xp) \<le> length p
      \<and> start_ok doc (fst xp) (take (length p - length (snd xp)) p)
      \<and> steps_ok doc (take (length p - length (snd xp)) p) (snd xp)
           (drop (length p - length (snd xp)) p))"

definition getNodeFromXPath :: "dnode option \<Rightarrow> string \<Rightarrow> exn + nat list option" where
  "getNodeFromXPath doc XPath =
     (case doc of
        None \<Rightarrow> Inr None
      | Some d \<Rightarrow>
          (case parse_xpath XPath of
             None \<Rightarrow> Inl SyntaxError
           | Some xp \<Rightarrow> Inr (find (sel d xp) (paths d))))"

section \<open>Replaying on the mirror: UpdateMirrorDocument and SyncToMirror\<close>

datatype TOperationType = TEXT | ADD | REMOVE

text \<open>The field \<open>node\<close> of an operation is \<open>string | Node\<close>: an address, or the deep clone of
  an added node. A clone is a detached copy, so it is the subtree as a value. The optional
  fields are \<open>None\<close> when absent or \<open>null\<close>.\<close>

datatype opnode = XPathStr string | NodeObj dnode

record TOperationLog =
  otype :: TOperationType
  node :: opnode
  nodeText :: "string option"
  parentNode :: "string option"
  siblingNode :: "string option"

fun update_at :: "nat list \<Rightarrow> (dnode \<Rightarrow> dnode) \<Rightarrow> dnode \<Rightarrow> dnode" where
  "update_at [] f d = f d"
| "update_at (i # p) f (DNode n k ks) =
     DNode n k (if i < length ks then ks[i := update_at p f (ks ! i)] else ks)"

text \<open>The \<open>textContent\<close> setter: a text or comment node takes the string as its data; an
  element has its children replaced by one new text node, or by none for the empty string;
  a document is left as it is.\<close>

fun set_textContent :: "string \<Rightarrow> dnode \<Rightarrow> dnode" where
  "set_textContent s (DNode n (TextNode _) ks) = DNode n (TextNode s) ks"
| "set_textContent s (DNode n (CommentNode _) ks) = DNode n (CommentNode s) ks"
| "set_textContent s (DNode n (ElementNode nm i c) ks) =
     DNode n (ElementNode nm i c) (if s = [] then [] else [DNode 0 (TextNode s) []])"
| "set_textContent s (DNode n DocumentNode ks) = DNode n DocumentNode ks"

fun set_childNodes :: "(dnode list \<Rightarrow> dnode list) \<Rightarrow> dnode \<Rightarrow> dnode" where
  "set_childNodes f (DNode n k ks) = DNode n k (f ks)"

definition remove_nth :: "nat \<Rightarrow> 'a list \<Rightarrow> 'a list" where
  "remove_nth i xs = take i xs @ drop (Suc i) xs"

definition insert_nth :: "nat \<Rightarrow> 'a \<Rightarrow> 'a list \<Rightarrow> 'a list" where
  "insert_nth i x xs = take i xs @ x # drop i xs"

text \<open>\<open>removeChild\<close> and \<open>insertBefore\<close> on the mirror, on positions. A node is a child of
  the parent exactly when its position is the parent's position followed by one index.\<close>

definition mirror_removeChild :: "dnode \<Rightarrow> nat list \<Rightarrow> nat list \<Rightarrow> exn + dnode" where
  "mirror_removeChild doc parent child =
     (if child \<noteq> [] \<and> butlast child = parent
      then Inr (update_at parent (set_childNodes (remove_nth (last child))) doc)
      else Inl NotFoundError)"

definition mirror_insertBefore :: "dnode \<Rightarrow> nat list \<Rightarrow> dnode \<Rightarrow> nat list option \<Rightarrow> exn + dnode" where
  "mirror_insertBefore doc parent new child =
     (case node_at doc parent of
        None \<Rightarrow> Inl TypeError
      | Some p \<Rightarrow>
          if nodeType p \<noteq> 1 \<and> nodeType p \<noteq> 9 then Inl HierarchyRequestError
          else if (case child of None \<Rightarrow> False | Some c \<Rightarrow> c = [] \<or> butlast c \<noteq> parent)
            then Inl NotFoundError
          else if nodeType new = 9 then Inl HierarchyRequestError
          else
            (case child of
               None \<Rightarrow> Inr (update_at parent (set_childNodes (\<lambda>ks. ks @ [new])) doc)
             | Some c \<Rightarrow> Inr (update_at parent (set_childNodes (insert_nth (last c) new)) doc)))"

text \<open>JavaScript's \<open>!x\<close> on an optional string: absent, \<open>null\<close> and the empty string.\<close>

definition falsy :: "string option \<Rightarrow> bool" where
  "falsy x = (case x of None \<Rightarrow> True | Some s \<Rightarrow> s = [])"

text \<open>The string behind an optional string that is known not to be falsy.\<close>

fun the_string :: "string option \<Rightarrow> string" where
  "the_string None = []"
| "the_string (Some s) = s"

definition UpdateMirrorDocument_Text ::
  "dnode option \<Rightarrow> string \<Rightarrow> string option \<Rightarrow> exn + dnode option" where
  "UpdateMirrorDocument_Text doc XPath Text =
     (if XPath = [] then Inr doc
      else (case getNodeFromXPath doc XPath of
              Inl e \<Rightarrow> Inl e
            | Inr None \<Rightarrow> Inr doc
            | Inr (Some NodeResult) \<Rightarrow>
                (let Text' = (if falsy Text then [] else the_string Text)
                 in Inr (map_option (update_at NodeResult (set_textContent Text')) doc))))"

definition UpdateMirrorDocument_Remove ::
  "dnode option \<Rightarrow> string option \<Rightarrow> string \<Rightarrow> exn + dnode option" where
  "UpdateMirrorDocument_Remove doc XPathParent XPathSelf =
     (if falsy XPathParent \<or> XPathSelf = [] then Inr doc
      else (case getNodeFromXPath doc (the_string XPathParent) of
              Inl e \<Rightarrow> Inl e
            | Inr None \<Rightarrow> Inr doc
            | Inr (Some parentNode') \<Rightarrow>
                (case getNodeFromXPath doc XPathSelf of
                   Inl e \<Rightarrow> Inl e
                 | Inr None \<Rightarrow> Inr doc
                 | Inr (Some targetNode) \<Rightarrow>
                     (case doc of
                        None \<Rightarrow> Inr doc
                      | Some d \<Rightarrow>
                          (case mirror_removeChild d parentNode' targetNode of
                             Inl e \<Rightarrow> Inl e
                           | Inr d' \<Rightarrow> Inr (Some d'))))))"

definition UpdateMirrorDocument_Add ::
  "dnode option \<Rightarrow> string option \<Rightarrow> opnode \<Rightarrow> string option \<Rightarrow> exn + dnode option" where
  "UpdateMirrorDocument_Add doc XPathParent Node XPathSibling =
     (if falsy XPathParent \<or> Node = XPathStr [] then Inr doc
      else (case getNodeFromXPath doc (the_string XPathParent) of
              Inl e \<Rightarrow> Inl e
            | Inr None \<Rightarrow> Inr doc
            | Inr (Some parentNode') \<Rightarrow>
                (case (if falsy XPathSibling then Inr None
                       else getNodeFromXPath doc (the_string XPathSibling)) of
                   Inl e \<Rightarrow> Inl e
                 | Inr SiblingNode \<Rightarrow>
                     (case (doc, Node) of
                        (Some d, NodeObj targetNode) \<Rightarrow>
                          (case mirror_insertBefore d parentNode' targetNode SiblingNode of
                             Inl e \<Rightarrow> Inl e
                           | Inr d' \<Rightarrow> Inr (Some d'))
                      | (Some d, XPathStr _) \<Rightarrow> Inl TypeError
                      | (None, _) \<Rightarrow> Inr doc))))"

text \<open>\<open>node as string\<close>: a node object passed where an address is expected reads as the
  text \<open>[object ...]\<close>, which is not a path.\<close>

fun as_string :: "opnode \<Rightarrow> string" where
  "as_string (XPathStr s) = s"
| "as_string (NodeObj _) = ''[object Node]''"

text \<open>One round of the \<open>while\<close> loop of \<open>SyncToMirror\<close>.\<close>

definition apply_operation :: "dnode option \<Rightarrow> TOperationLog \<Rightarrow> exn + dnode option" where
  "apply_operation doc operation =
     (case otype operation of
        TEXT \<Rightarrow> UpdateMirrorDocument_Text doc (as_string (node operation)) (nodeText operation)
      | REMOVE \<Rightarrow>
          UpdateMirrorDocument_Remove doc (parentNode operation) (as_string (node operation))
      | ADD \<Rightarrow>
          UpdateMirrorDocument_Add doc (parentNode operation) (node operation)
            (siblingNode operation))"

text \<open>\<open>Operations.pop()\<close> takes the last element, so the log is replayed from its end.\<close>

function SyncToMirror :: "dnode option \<Rightarrow> TOperationLog list \<Rightarrow> exn + dnode option" where
  "SyncToMirror doc Operations =
     (if Operations = [] then Inr doc
      else (case apply_operation doc (last Operations) of
              Inl e \<Rightarrow> Inl e
            | Inr doc' \<Rightarrow> SyncToMirror doc' (butlast Operations)))"
  by pat_completeness auto
termination
  by (relation "measure (\<lambda>(doc, Operations). length Operations)") auto

section \<open>The daemon: observer, queue and FlushQueue\<close>

datatype MutationRecordType = attributes | characterData | childList

text \<open>The fields of a \<open>MutationRecord\<close> that the hook reads.\<close>

record MutationRecord =
  mtype :: MutationRecordType
  target :: nid
  addedNodes :: "nid list"
  removedNodes :: "nid list"
  nextSibling :: "nid option"
  oldValue :: "string option"

text \<open>The platform's \<open>MutationObserver\<close>: whether it is registered on the watched element,
  and its record queue (records noted but not yet handed to the callback).
  \<open>disconnect\<close> unregisters and empties the record queue; \<open>takeRecords\<close> returns the record
  queue and empties it; \<open>observe\<close> on a registered target only sets the options again.\<close>

record MutationObserver =
  observing :: bool
  recordQueue :: "MutationRecord list"

definition disconnect :: "MutationObserver \<Rightarrow> MutationObserver" where
  "disconnect ob = ob\<lparr>observing := False, recordQueue := []\<rparr>"

definition observe :: "MutationObserver \<Rightarrow> MutationObserver" where
  "observe ob = ob\<lparr>observing := True\<rparr>"

definition takeRecords :: "MutationObserver \<Rightarrow> MutationRecord list \<times> MutationObserver" where
  "takeRecords ob = (recordQueue ob, ob\<lparr>recordQueue := []\<rparr>)"

record TDaemonState =
  Observer :: MutationObserver
  MutationQueue :: "MutationRecord list"

text \<open>Everything the hook's closures reach: the daemon state, the two refs with the trees
  behind them, and the number of times \<open>FinalizeChanges\<close> has been called.\<close>

record hook =
  DaemonState :: TDaemonState
  WatchElementRef :: "nid option"
  liveDOM :: dom
  MirrorDocumentRef :: "dnode option"
  FinalizeChanges :: nat

text \<open>The observer's callback: \<open>state.MutationQueue.push(...mutationList)\<close>.\<close>

definition deliver :: "hook \<Rightarrow> hook" where
  "deliver s =
     s\<lparr>DaemonState :=
         \<lparr>Observer = (Observer (DaemonState s))\<lparr>recordQueue := []\<rparr>,
          MutationQueue =
            MutationQueue (DaemonState s) @ recordQueue (Observer (DaemonState s))\<rparr>\<rparr>"

definition toggleObserve :: "hook \<Rightarrow> bool \<Rightarrow> hook" where
  "toggleObserve s bObserver =
     (if \<not> bObserver then
        s\<lparr>DaemonState := (DaemonState s)\<lparr>Observer := disconnect (Observer (DaemonState s))\<rparr>\<rparr>
      else if WatchElementRef s = None then s
      else s\<lparr>DaemonState := (DaemonState s)\<lparr>Observer := observe (Observer (DaemonState s))\<rparr>\<rparr>)"

text \<open>\<open>OperationLogs[OperationLogs.length - 1]\<close>: \<open>undefined\<close> on the empty log.\<close>

definition latest :: "TOperationLog list \<Rightarrow> TOperationLog option" where
  "latest OperationLogs = (if OperationLogs = [] then None else Some (last OperationLogs))"

text \<open>The text branch. Two operations have the same \<open>JSON.stringify\<close> text exactly when
  they have the same fields, so the comparison is equality.\<close>

definition text_operation :: "dom \<Rightarrow> nid option \<Rightarrow> MutationRecord \<Rightarrow> TOperationLog" where
  "text_operation F w mutation =
     \<lparr>otype = TEXT,
      node = XPathStr (getXPathFromNode F w (target mutation)),
      nodeText = (case lookup F (target mutation) of None \<Rightarrow> None | Some t \<Rightarrow> textContent t),
      parentNode = None, siblingNode = None\<rparr>"

definition compile_text ::
  "dom \<Rightarrow> nid option \<Rightarrow> MutationRecord \<Rightarrow> TOperationLog list \<Rightarrow> TOperationLog list" where
  "compile_text F w mutation OperationLogs =
     (if oldValue mutation \<noteq> None \<and> mtype mutation = characterData then
        (let Operation = text_operation F w mutation;
             latestOperationLog = latest OperationLogs
         in if latestOperationLog \<noteq> Some Operation then OperationLogs @ [Operation]
            else OperationLogs)
      else OperationLogs)"

text \<open>The loop over \<open>removedNodes\<close>, from the last index down; the list argument is the
  part still to visit, last node first.\<close>

fun rollback_removed ::
  "dom \<Rightarrow> nid option \<Rightarrow> MutationRecord \<Rightarrow> nid list \<Rightarrow> TOperationLog list
   \<Rightarrow> exn + dom \<times> TOperationLog list" where
  "rollback_removed F w mutation [] OperationLogs = Inr (F, OperationLogs)"
| "rollback_removed F w mutation (removed # rest) OperationLogs =
     (case insertBefore F (target mutation) removed (nextSibling mutation) of
        Inl e \<Rightarrow> Inl e
      | Inr F' \<Rightarrow>
          rollback_removed F' w mutation rest
            (OperationLogs @
              [\<lparr>otype = REMOVE,
                node = XPathStr (getXPathFromNode F' w removed),
                nodeText = None,
                parentNode = Some (getXPathFromNode F' w (target mutation)),
                siblingNode = None\<rparr>]))"

text \<open>The loop over \<open>addedNodes\<close>, from the last index down.\<close>

fun rollback_added ::
  "dom \<Rightarrow> nid option \<Rightarrow> MutationRecord \<Rightarrow> nid list \<Rightarrow> TOperationLog list
   \<Rightarrow> exn + dom \<times> TOperationLog list" where
  "rollback_added F w mutation [] OperationLogs = Inr (F, OperationLogs)"
| "rollback_added F w mutation (added # rest) OperationLogs =
     (case (if parentNode_of F added \<noteq> None then removeChild F (target mutation) added
            else Inr F) of
        Inl e \<Rightarrow> Inl e
      | Inr F' \<Rightarrow>
          (case lookup F' added of
             None \<Rightarrow> Inl TypeError
           | Some a \<Rightarrow>
               rollback_added F' w mutation rest
                 (OperationLogs @
                   [\<lparr>otype = ADD,
                     node = NodeObj a,
                     nodeText = None,
                     parentNode = Some (getXPathFromNode F' w (target mutation)),
                     siblingNode =
                       (case nextSibling mutation of
                          None \<Rightarrow> None
                        | Some sib \<Rightarrow> Some (getXPathFromNode F' w sib))\<rparr>])))"

text \<open>The body of the \<open>while\<close> loop of \<open>FlushQueue\<close> for one record.\<close>

definition compile_record ::
  "dom \<Rightarrow> nid option \<Rightarrow> MutationRecord \<Rightarrow> TOperationLog list
   \<Rightarrow> exn + dom \<times> TOperationLog list" where
  "compile_record F w mutation OperationLogs =
     (case rollback_removed F w mutation (rev (removedNodes mutation))
             (compile_text F w mutation OperationLogs) of
        Inl e \<Rightarrow> Inl e
      | Inr (F', OperationLogs') \<Rightarrow>
          rollback_added F' w mutation (rev (addedNodes mutation)) OperationLogs')"

definition set_queue :: "hook \<Rightarrow> MutationRecord list \<Rightarrow> hook" where
  "set_queue s q = s\<lparr>DaemonState := (DaemonState s)\<lparr>MutationQueue := q\<rparr>\<rparr>"

text \<open>The \<open>while ((mutation = DaemonState.MutationQueue.pop()))\<close> loop: each round takes the
  last record off the queue.\<close>

function compile_queue :: "hook \<Rightarrow> TOperationLog list \<Rightarrow> exn + hook \<times> TOperationLog list" where
  "compile_queue s OperationLogs =
     (if MutationQueue (DaemonState s) = [] then Inr (s, OperationLogs)
      else
        (let mutation = last (MutationQueue (DaemonState s));
             s1 = set_queue s (butlast (MutationQueue (DaemonState s)))
         in case compile_record (liveDOM s1) (WatchElementRef s1) mutation OperationLogs of
              Inl e \<Rightarrow> Inl e
            | Inr (F', OperationLogs') \<Rightarrow> compile_queue (s1\<lparr>liveDOM := F'\<rparr>) OperationLogs'))"
  by pat_completeness auto
termination
  by (relation "measure (\<lambda>(s, OperationLogs). length (MutationQueue (DaemonState s)))")
     (auto simp: set_queue_def)

definition FlushQueue :: "hook \<Rightarrow> exn + hook" where
  "FlushQueue s =
     (let (taken, ob) = takeRecords (Observer (DaemonState s));
          s1 = s\<lparr>DaemonState :=
                   \<lparr>Observer = ob, MutationQueue = MutationQueue (DaemonState s) @ taken\<rparr>\<rparr>
      in if MutationQueue (DaemonState s1) = [] then Inr s1
         else
           (case compile_queue (toggleObserve s1 False) [] of
              Inl e \<Rightarrow> Inl e
            | Inr (s2, OperationLogs) \<Rightarrow>
                (case SyncToMirror (MirrorDocumentRef s2) OperationLogs of
                   Inl e \<Rightarrow> Inl e
                 | Inr doc \<Rightarrow>
                     Inr (toggleObserve
                            (s2\<lparr>MirrorDocumentRef := doc,
                                FinalizeChanges := Suc (FinalizeChanges s2)\<rparr>) True))))"

section \<open>What the observer records\<close>

text \<open>
  The edits that reach the daemon are the platform's primitive mutations, each leaving one
  record with the observer: replacing the data of a text or comment node, removing a node from
  its parent, inserting a detached node under a parent before a child (or at the end). Moving
  an attached node is a removal followed by an insertion. One call of the platform can also
  replace a run of children by new nodes and leave a single record that lists them all
  (\<open>replaceChild\<close>, \<open>replaceChildren\<close>, setting \<open>textContent\<close> or \<open>innerHTML\<close> of an element,
  inserting a fragment): \<open>ReplaceNodes p rs ns ref\<close> takes the consecutive children \<open>rs\<close> of
  \<open>p\<close>, which end just before \<open>ref\<close> (or at the end), out of \<open>p\<close> and puts the detached nodes
  \<open>ns\<close> in their place. The records are those of the DOM standard for an observer registered
  with \<open>childList\<close>, \<open>subtree\<close>, \<open>characterData\<close> and \<open>characterDataOldValue\<close>.
\<close>

datatype mutation =
    SetData nid string
  | RemoveNode nid
  | InsertNode nid nid "nid option"
  | ReplaceNodes nid "nid list" "nid list" "nid option"

fun data_of :: "dnode \<Rightarrow> string option" where
  "data_of (DNode _ (TextNode d) _) = Some d"
| "data_of (DNode _ (CommentNode d) _) = Some d"
| "data_of _ = None"

fun with_data :: "string \<Rightarrow> nkind \<Rightarrow> nkind" where
  "with_data s (TextNode _) = TextNode s"
| "with_data s (CommentNode _) = CommentNode s"
| "with_data s k = k"

fun replace_data :: "nid \<Rightarrow> string \<Rightarrow> dnode \<Rightarrow> dnode"
  and replace_data_list :: "nid \<Rightarrow> string \<Rightarrow> dnode list \<Rightarrow> dnode list" where
  "replace_data n s (DNode i k ks) =
     DNode i (if i = n then with_data s k else k) (replace_data_list n s ks)"
| "replace_data_list n s [] = []"
| "replace_data_list n s (t # ts) = replace_data n s t # replace_data_list n s ts"

text \<open>Putting the detached nodes \<open>ns\<close>, in this order, under \<open>p\<close> before \<open>anchor\<close>.\<close>

fun insert_nodes :: "dom \<Rightarrow> nid \<Rightarrow> nid list \<Rightarrow> nid option \<Rightarrow> dom option" where
  "insert_nodes F p [] anchor = Some F"
| "insert_nodes F p (n # ns) anchor =
     (if parentNode_of F n \<noteq> None then None
      else (case insertBefore F p n anchor of
              Inl e \<Rightarrow> None
            | Inr F' \<Rightarrow> insert_nodes F' p ns anchor))"

text \<open>Taking out the children \<open>rs\<close> of \<open>p\<close>, which follow one another and end just before
  \<open>ref\<close>.\<close>

fun remove_nodes :: "dom \<Rightarrow> nid \<Rightarrow> nid list \<Rightarrow> nid option \<Rightarrow> dom option" where
  "remove_nodes F p [] ref = Some F"
| "remove_nodes F p (r # rs) ref =
     (if parentNode_of F r \<noteq> Some p
         \<or> nextSibling_of F r \<noteq> (case rs of [] \<Rightarrow> ref | r' # _ \<Rightarrow> Some r')
      then None
      else (case removeChild F p r of
              Inl e \<Rightarrow> None
            | Inr F' \<Rightarrow> remove_nodes F' p rs ref))"

text \<open>The store that a replacement gives does not depend on the order in which the nodes go
  in and out; in \<open>mutate\<close> the new nodes go in first, before the first node of the run.\<close>

fun mutate :: "dom \<Rightarrow> mutation \<Rightarrow> (dom \<times> MutationRecord) option" where
  "mutate F (SetData n s) =
     (case lookup F n of
        None \<Rightarrow> None
      | Some t \<Rightarrow>
          (case data_of t of
             None \<Rightarrow> None
           | Some old \<Rightarrow>
               Some (replace_data_list n s F,
                     \<lparr>mtype = characterData, target = n, addedNodes = [], removedNodes = [],
                      nextSibling = None, oldValue = Some old\<rparr>)))"
| "mutate F (RemoveNode n) =
     (case parentNode_of F n of
        None \<Rightarrow> None
      | Some p \<Rightarrow>
          (case removeChild F p n of
             Inl e \<Rightarrow> None
           | Inr F' \<Rightarrow>
               Some (F',
                     \<lparr>mtype = childList, target = p, addedNodes = [], removedNodes = [n],
                      nextSibling = nextSibling_of F n, oldValue = None\<rparr>)))"
| "mutate F (InsertNode p n child) =
     (if parentNode_of F n \<noteq> None then None
      else (case insertBefore F p n child of
              Inl e \<Rightarrow> None
            | Inr F' \<Rightarrow>
                Some (F',
                      \<lparr>mtype = childList, target = p, addedNodes = [n], removedNodes = [],
                       nextSibling = child, oldValue = None\<rparr>)))"
| "mutate F (ReplaceNodes p rs ns ref) =
     (if rs = [] \<and> ns = [] then None
      else (case insert_nodes F p ns (case rs of [] \<Rightarrow> ref | r # _ \<Rightarrow> Some r) of
              None \<Rightarrow> None
            | Some F' \<Rightarrow>
                (case remove_nodes F' p rs ref of
                   None \<Rightarrow> None
                 | Some F'' \<Rightarrow>
                     Some (F'',
                           \<lparr>mtype = childList, target = p, addedNodes = ns, removedNodes = rs,
                            nextSibling = ref, oldValue = None\<rparr>))))"

fun mutations :: "dom \<Rightarrow> mutation list \<Rightarrow> (dom \<times> MutationRecord list) option" where
  "mutations F [] = Some (F, [])"
| "mutations F (m # ms) =
     (case mutate F m of
        None \<Rightarrow> None
      | Some (F', r) \<Rightarrow>
          (case mutations F' ms of
             None \<Rightarrow> None
           | Some (F'', rs) \<Rightarrow> Some (F'', r # rs)))"

text \<open>The children of \<open>parent\<close> that come before the node \<open>nd\<close>.\<close>

definition preceding :: "dnode \<Rightarrow> dnode \<Rightarrow> dnode list" where
  "preceding nd parent = takeWhile (\<lambda>s. ident s \<noteq> ident nd) (childNodes parent)"

section \<open>Predicates and example states used by the theorems\<close>


text \<open>An editor as \<open>Editor\<close> mounts it: the watched element is \<open><main class="Editor-Inner">\<close>
  inside a \<open>section\<close> of the page, holding two paragraphs; the mirror document is what
  \<open>DOMParser\<close> gives for the same two paragraphs.\<close>

definition ex_main :: dnode where
  "ex_main =
     DNode 5 (ElementNode ''MAIN'' [] ''Editor-Inner'')
       [DNode 6 (ElementNode ''P'' [] []) [DNode 7 (TextNode ''Hello'') []],
        DNode 8 (ElementNode ''P'' [] []) [DNode 9 (TextNode ''B'') []]]"

definition ex_document :: dnode where
  "ex_document =
     DNode 0 DocumentNode
       [DNode 1 (ElementNode ''HTML'' [] [])
          [DNode 2 (ElementNode ''HEAD'' [] []) [],
           DNode 3 (ElementNode ''BODY'' [] [])
             [DNode 4 (ElementNode ''SECTION'' [] ''Editor'') [ex_main]]]]"

definition ex_live :: dom where
  "ex_live = [ex_document]"

definition ex_mirror :: dnode where
  "ex_mirror =
     DNode 0 DocumentNode
       [DNode 1 (ElementNode ''HTML'' [] [])
          [DNode 2 (ElementNode ''HEAD'' [] []) [],
           DNode 3 (ElementNode ''BODY'' [] [])
             [DNode 6 (ElementNode ''P'' [] []) [DNode 7 (TextNode ''Hello'') []],
              DNode 8 (ElementNode ''P'' [] []) [DNode 9 (TextNode ''B'') []]]]]"

definition ex_idle :: hook where
  "ex_idle =
     \<lparr>DaemonState = \<lparr>Observer = \<lparr>observing = True, recordQueue = []\<rparr>, MutationQueue = []\<rparr>,
      WatchElementRef = Some 5, liveDOM = ex_live, MirrorDocumentRef = Some ex_mirror,
      FinalizeChanges = 0\<rparr>"

text \<open>The record of typing into the first paragraph (its text was \<open>Hell\<close> before).\<close>

definition ex_text_record :: MutationRecord where
  "ex_text_record =
     \<lparr>mtype = characterData, target = 7, addedNodes = [], removedNodes = [],
      nextSibling = None, oldValue = Some ''Hell''\<rparr>"

definition ex_pending :: hook where
  "ex_pending =
     ex_idle\<lparr>DaemonState :=
       \<lparr>Observer = \<lparr>observing = True, recordQueue = [ex_text_record]\<rparr>, MutationQueue = []\<rparr>\<rparr>"

definition ex_queued :: hook where
  "ex_queued =
     ex_idle\<lparr>DaemonState :=
       \<lparr>Observer = \<lparr>observing = True, recordQueue = []\<rparr>, MutationQueue = [ex_text_record]\<rparr>\<rparr>"

definition ex_text_op :: TOperationLog where
  "ex_text_op =
     \<lparr>otype = TEXT, node = XPathStr ''//body/p[1]/text()[1]'', nodeText = Some ''Hello!'',
      parentNode = None, siblingNode = None\<rparr>"


text \<open>A watched element with two paragraphs, on its own.\<close>

definition ex_para :: dnode where
  "ex_para = DNode 3 (ElementNode ''P'' [] []) [DNode 4 (TextNode ''B'') []]"

definition ex_root :: dnode where
  "ex_root =
     DNode 0 (ElementNode ''MAIN'' [] ''Editor-Inner'')
       [DNode 1 (ElementNode ''P'' [] []) [DNode 2 (TextNode ''Hello'') []], ex_para]"

text \<open>The small example after two keystrokes in the first paragraph, and their records.\<close>

definition ex_after_typing :: dom where
  "ex_after_typing =
     [DNode 0 (ElementNode ''MAIN'' [] ''Editor-Inner'')
        [DNode 1 (ElementNode ''P'' [] []) [DNode 2 (TextNode ''Hello!!'') []], ex_para]]"

definition ex_first_stroke :: MutationRecord where
  "ex_first_stroke =
     \<lparr>mtype = characterData, target = 2, addedNodes = [], removedNodes = [],
      nextSibling = None, oldValue = Some ''Hello''\<rparr>"

definition ex_second_stroke :: MutationRecord where
  "ex_second_stroke =
     \<lparr>mtype = characterData, target = 2, addedNodes = [], removedNodes = [],
      nextSibling = None, oldValue = Some ''Hello!''\<rparr>"

definition ex_two_strokes :: hook where
  "ex_two_strokes =
     \<lparr>DaemonState =
        \<lparr>Observer = \<lparr>observing = True, recordQueue = []\<rparr>,
         MutationQueue = [ex_first_stroke, ex_second_stroke]\<rparr>,
      WatchElementRef = Some 0, liveDOM = ex_after_typing, MirrorDocumentRef = None,
      FinalizeChanges = 0\<rparr>"

section \<open>The watched element and its mirror\<close>

text \<open>All nodes of a tree, in document order.\<close>

fun nodes :: "dnode \<Rightarrow> dnode list" and nodes_list :: "dnode list \<Rightarrow> dnode list" where
  "nodes (DNode i k ks) = DNode i k ks # nodes_list ks"
| "nodes_list [] = []"
| "nodes_list (t # ts) = nodes t @ nodes_list ts"

text \<open>The mirror document of a watched element: what \<open>DOMParser\<close> makes of the element's
  inner HTML, a document whose \<open>body\<close> holds a copy of the element's children. (The
  identities in a mirror carry no meaning: its nodes are only ever found by address.)\<close>

definition mirror_of :: "dnode \<Rightarrow> dnode" where
  "mirror_of w =
     DNode 0 DocumentNode
       [DNode 0 (ElementNode ''HTML'' [] [])
          [DNode 0 (ElementNode ''HEAD'' [] []) [],
           DNode 0 (ElementNode ''BODY'' [] []) (childNodes w)]]"

text \<open>The position of a node below the top of its chain: for the chain \<open>c # p # \<dots> # top\<close>
  the child indices that lead from \<open>top\<close> down to \<open>c\<close>.\<close>

fun position :: "dnode list \<Rightarrow> nat list" where
  "position (c # p # up) = position (p # up) @ [length (preceding c p)]"
| "position _ = []"

text \<open>The node name of an HTML element in an HTML document: upper-case letters, digits,
  hyphen, underscore and full stop.\<close>

definition is_html_name_char :: "char \<Rightarrow> bool" where
  "is_html_name_char c =
     (let n = (of_char c :: nat) in
        (48 \<le> n \<and> n \<le> 57) \<or> (65 \<le> n \<and> n \<le> 90)
        \<or> n = 45 \<or> n = 95 \<or> n = 46)"

definition html_name :: "string \<Rightarrow> bool" where
  "html_name nm = (nm \<noteq> [] \<and> list_all is_html_name_char nm)"

text \<open>A node that an address can name by its place below the watched element \<open>w\<close>: a text
  node, or an HTML element that is not a \<open>body\<close>, does not have the tag name and class name
  of the watched element, and has no double quote in its id.\<close>

definition placeable :: "dnode \<Rightarrow> dnode \<Rightarrow> bool" where
  "placeable w x =
     (nodeType x = TEXT_NODE
      \<or> (nodeType x = 1 \<and> html_name (nodeName x) \<and> nodeName x \<noteq> ''BODY''
          \<and> \<not> (className x = className w \<and> tagName x = tagName w)
          \<and> CHR 0x22 \<notin> set (id_string x)))"

text \<open>A watched element whose content can be addressed: the element has no id, every node
  below it is placeable, and no id occurs twice below it.\<close>

definition addressable :: "dnode \<Rightarrow> bool" where
  "addressable w =
     (nodeType w = 1 \<and> \<not> has_id w
      \<and> list_all (placeable w) (nodes_list (childNodes w))
      \<and> distinct (filter (\<lambda>i. i \<noteq> []) (map id_string (nodes_list (childNodes w)))))"

text \<open>The text with which an address starts.\<close>

fun start_string :: "xstart \<Rightarrow> string" where
  "start_string XBody = ''//body''"
| "start_string (XId x) = ''//*[@id='' @ [CHR 0x22] @ x @ [CHR 0x22] @ '']''"
| "start_string XRoot = []"

text \<open>A list of nodes in which each node is a child of the next.\<close>

fun linked :: "dnode list \<Rightarrow> bool" where
  "linked (c # p # up) = (c \<in> set (childNodes p) \<and> linked (p # up))"
| "linked _ = True"

text \<open>The address \<open>A\<close> names the position \<open>P\<close> of the document \<open>d\<close> and no other: it is
  a start that matches at one place only, followed by child steps that lead from there to
  \<open>P\<close>.\<close>

definition names_position :: "dnode \<Rightarrow> string \<Rightarrow> nat list \<Rightarrow> bool" where
  "names_position d A P =
     (\<exists>st S steps q0 rel.
        A = start_string st @ S
        \<and> (st = XBody \<or> (\<exists>x. st = XId x \<and> CHR 0x22 \<notin> set x))
        \<and> parse_steps st S = Some (st, steps)
        \<and> P = q0 @ rel \<and> start_ok d st q0 \<and> (\<forall>q. start_ok d st q \<longrightarrow> q = q0)
        \<and> steps_ok d q0 steps rel)"

section \<open>Well-formed stores, and text apart from structure\<close>

text \<open>\<open>retext e\<close> gives every text and comment node the data \<open>e\<close> assigns to its identity and
  leaves everything else as it is: the same tree with other text.\<close>

fun retext :: "(nid \<Rightarrow> string) \<Rightarrow> dnode \<Rightarrow> dnode"
  and retext_list :: "(nid \<Rightarrow> string) \<Rightarrow> dnode list \<Rightarrow> dnode list" where
  "retext e (DNode i k ks) = DNode i (with_data (e i) k) (retext_list e ks)"
| "retext_list e [] = []"
| "retext_list e (t # ts) = retext e t # retext_list e ts"

text \<open>The data that the node with identity \<open>n\<close> has in the store (empty when it has none).\<close>

definition data_in :: "dom \<Rightarrow> nid \<Rightarrow> string" where
  "data_in F n =
     (case lookup F n of
        None \<Rightarrow> []
      | Some t \<Rightarrow> (case data_of t of None \<Rightarrow> [] | Some d \<Rightarrow> d))"

text \<open>What the platform guarantees of a store: only elements and documents have children,
  a document is never a child, no two nodes share an identity. (And the trees of the store
  are in the order of their top identities, see \<open>detached\<close>.)\<close>

definition node_ok :: "dnode \<Rightarrow> bool" where
  "node_ok t =
     ((nodeType t = 1 \<or> nodeType t = 9 \<or> childNodes t = [])
      \<and> list_all (\<lambda>c. nodeType c \<noteq> 9) (childNodes t))"

definition store_ok :: "dom \<Rightarrow> bool" where
  "store_ok F =
     (distinct (ids_list F) \<and> sorted (map ident F) \<and> list_all node_ok (nodes_list F))"

text \<open>An edit of text, as opposed to an edit of structure.\<close>

fun is_text_edit :: "mutation \<Rightarrow> bool" where
  "is_text_edit (SetData _ _) = True"
| "is_text_edit _ = False"

text \<open>The small example after one keystroke in the first paragraph, waiting to be flushed.\<close>

definition ex_typed :: dom where
  "ex_typed =
     [DNode 0 (ElementNode ''MAIN'' [] ''Editor-Inner'')
        [DNode 1 (ElementNode ''P'' [] []) [DNode 2 (TextNode ''Hello!'') []], ex_para]]"

definition ex_one_stroke :: hook where
  "ex_one_stroke =
     \<lparr>DaemonState =
        \<lparr>Observer = \<lparr>observing = True, recordQueue = []\<rparr>, MutationQueue = [ex_first_stroke]\<rparr>,
      WatchElementRef = Some 0, liveDOM = ex_typed, MirrorDocumentRef = Some (mirror_of ex_root),
      FinalizeChanges = 0\<rparr>"

text \<open>A batch of three edits of the small example: a keystroke in the first paragraph, then
  the second paragraph is taken out and put into the first, before its text.\<close>

definition ex_edits :: "mutation list" where
  "ex_edits = [SetData 2 ''Hello!'', RemoveNode 3, InsertNode 1 3 (Some 2)]"

definition ex_edited :: hook where
  "ex_edited =
     \<lparr>DaemonState =
        \<lparr>Observer = \<lparr>observing = True, recordQueue = []\<rparr>,
         MutationQueue =
           [ex_first_stroke,
            \<lparr>mtype = childList, target = 0, addedNodes = [], removedNodes = [3],
             nextSibling = None, oldValue = None\<rparr>,
            \<lparr>mtype = childList, target = 1, addedNodes = [3], removedNodes = [],
             nextSibling = Some 2, oldValue = None\<rparr>]\<rparr>,
      WatchElementRef = Some 0,
      liveDOM =
        [DNode 0 (ElementNode ''MAIN'' [] ''Editor-Inner'')
           [DNode 1 (ElementNode ''P'' [] []) [ex_para, DNode 2 (TextNode ''Hello!'') []]]],
      MirrorDocumentRef = Some (mirror_of ex_root),
      FinalizeChanges = 0\<rparr>"









text \<open>Two edits of structure of the small example: the second paragraph is taken out, and
  then takes the place of the text of the first paragraph (as \<open>replaceChild\<close> does it).\<close>

definition ex_moves :: "mutation list" where
  "ex_moves = [RemoveNode 3, ReplaceNodes 1 [2] [3] None]"

definition ex_moved :: hook where
  "ex_moved =
     \<lparr>DaemonState =
        \<lparr>Observer = \<lparr>observing = True, recordQueue = []\<rparr>,
         MutationQueue =
           [\<lparr>mtype = childList, target = 0, addedNodes = [], removedNodes = [3],
             nextSibling = None, oldValue = None\<rparr>,
            \<lparr>mtype = childList, target = 1, addedNodes = [3], removedNodes = [2],
             nextSibling = None, oldValue = None\<rparr>]\<rparr>,
      WatchElementRef = Some 0,
      liveDOM =
        [DNode 0 (ElementNode ''MAIN'' [] ''Editor-Inner'')
           [DNode 1 (ElementNode ''P'' [] []) [ex_para]],
         DNode 2 (TextNode ''Hello'') []],
      MirrorDocumentRef = Some (mirror_of ex_root),
      FinalizeChanges = 0\<rparr>"

text \<open>The small example after all children of the watched element are taken out in one
  call (as \<open>replaceChildren\<close> does it), which leaves one record that lists both paragraphs;
  and the watched element with its paragraphs in the other order.\<close>

definition ex_cleared :: hook where
  "ex_cleared =
     \<lparr>DaemonState =
        \<lparr>Observer = \<lparr>observing = True, recordQueue = []\<rparr>,
         MutationQueue =
           [\<lparr>mtype = childList, target = 0, addedNodes = [], removedNodes = [1, 3],
             nextSibling = None, oldValue = None\<rparr>]\<rparr>,
      WatchElementRef = Some 0,
      liveDOM =
        [DNode 0 (ElementNode ''MAIN'' [] ''Editor-Inner'') [],
         DNode 1 (ElementNode ''P'' [] []) [DNode 2 (TextNode ''Hello'') []],
         ex_para],
      MirrorDocumentRef = Some (mirror_of ex_root),
      FinalizeChanges = 0\<rparr>"

definition ex_swapped :: dnode where
  "ex_swapped =
     DNode 0 (ElementNode ''MAIN'' [] ''Editor-Inner'')
       [ex_para, DNode 1 (ElementNode ''P'' [] []) [DNode 2 (TextNode ''Hello'') []]]"

















section \<open>Properties of the queue and of the replay loop\<close>

declare compile_queue.simps [simp del] SyncToMirror.simps [simp del]

lemma set_queue_fields [simp]:
  "liveDOM (set_queue s q) = liveDOM s"
  "WatchElementRef (set_queue s q) = WatchElementRef s"
  "MirrorDocumentRef (set_queue s q) = MirrorDocumentRef s"
  "FinalizeChanges (set_queue s q) = FinalizeChanges s"
  "MutationQueue (DaemonState (set_queue s q)) = q"
  "Observer (DaemonState (set_queue s q)) = Observer (DaemonState s)"
  by (simp_all add: set_queue_def)

lemma compile_queue_nil:
  "MutationQueue (DaemonState s) = [] \<Longrightarrow> compile_queue s ops = Inr (s, ops)"
  by (simp add: compile_queue.simps)

lemma compile_queue_snoc:
  "MutationQueue (DaemonState s) = q @ [m] \<Longrightarrow>
   compile_queue s ops =
     (case compile_record (liveDOM s) (WatchElementRef s) m ops of
        Inl e \<Rightarrow> Inl e
      | Inr (F', ops') \<Rightarrow> compile_queue ((set_queue s q)\<lparr>liveDOM := F'\<rparr>) ops')"
  by (subst compile_queue.simps) (simp add: Let_def)

lemma compile_queue_empties:
  "MutationQueue (DaemonState s) = q \<Longrightarrow> compile_queue s ops = Inr (s', ops') \<Longrightarrow>
   MutationQueue (DaemonState s') = [] \<and> Observer (DaemonState s') = Observer (DaemonState s)"
proof (induction q arbitrary: s ops rule: rev_induct)
  case Nil
  then show ?case by (simp add: compile_queue_nil)
next
  case (snoc m q)
  from snoc.prems obtain F' ops1 where
    step: "compile_record (liveDOM s) (WatchElementRef s) m ops = Inr (F', ops1)" and
    rest: "compile_queue ((set_queue s q)\<lparr>liveDOM := F'\<rparr>) ops1 = Inr (s', ops')"
    by (auto simp: compile_queue_snoc split: sum.splits prod.splits)
  have "MutationQueue (DaemonState ((set_queue s q)\<lparr>liveDOM := F'\<rparr>)) = q"
    by (simp add: set_queue_def)
  from snoc.IH [OF this rest] show ?case by (simp add: set_queue_def)
qed





text \<open>
  Claim C7 (idempotent flush). When the mutation queue is empty and the observer holds no
  undelivered record, so that the queue is still empty after \<open>takeRecords\<close> is merged in,
  \<open>FlushQueue\<close> returns with the state as it was: the mirror document is not touched and
  \<open>FinalizeChanges\<close> is not called.
\<close>

theorem C7_flush_of_empty_queue:
  "MutationQueue (DaemonState s) = [] \<Longrightarrow> recordQueue (Observer (DaemonState s)) = [] \<Longrightarrow>
   FlushQueue s = Inr s"
  by (simp add: FlushQueue_def takeRecords_def)

text \<open>Claim C7 at the idle example editor.\<close>

theorem C7_flush_of_empty_queue_witness:
  "MutationQueue (DaemonState ex_idle) = [] \<and> recordQueue (Observer (DaemonState ex_idle)) = []
   \<and> FlushQueue ex_idle = Inr ex_idle"
proof -
  have q: "MutationQueue (DaemonState ex_idle) = []" by (simp add: ex_idle_def)
  have r: "recordQueue (Observer (DaemonState ex_idle)) = []" by (simp add: ex_idle_def)
  from C7_flush_of_empty_queue [OF q r] q r show ?thesis by simp
qed

text \<open>
  Claim C10 (the queue is drained). Whenever \<open>FlushQueue\<close> returns, the daemon's
  \<open>MutationQueue\<close> is empty and so is the observer's record queue: the pending records were
  merged in by \<open>takeRecords\<close> and the compile loop popped every record.
\<close>

theorem C10_flush_leaves_queue_empty:
  "FlushQueue s = Inr s' \<Longrightarrow>
     MutationQueue (DaemonState s') = [] \<and> recordQueue (Observer (DaemonState s')) = []"
proof -
  assume a: "FlushQueue s = Inr s'"
  let ?s1 = "s\<lparr>DaemonState := \<lparr>Observer = (Observer (DaemonState s))\<lparr>recordQueue := []\<rparr>,
       MutationQueue = MutationQueue (DaemonState s) @ recordQueue (Observer (DaemonState s))\<rparr>\<rparr>"
  show ?thesis
  proof (cases "MutationQueue (DaemonState ?s1) = []")
    case True
    with a show ?thesis by (auto simp: FlushQueue_def takeRecords_def)
  next
    case False
    with a obtain s2 ops doc where
      c: "compile_queue (toggleObserve ?s1 False) [] = Inr (s2, ops)" and
      s': "s' = toggleObserve (s2\<lparr>MirrorDocumentRef := doc,
                                FinalizeChanges := Suc (FinalizeChanges s2)\<rparr>) True"
      by (auto simp: FlushQueue_def takeRecords_def Let_def split: sum.splits prod.splits if_splits)
    from compile_queue_empties [OF refl c]
    have "MutationQueue (DaemonState s2) = []" "recordQueue (Observer (DaemonState s2)) = []"
      by (simp_all add: toggleObserve_def disconnect_def)
    with s' show ?thesis by (simp add: toggleObserve_def observe_def)
  qed
qed

text \<open>Claim C10 at the example editor with one text record in the queue: the flush
  returns, and the queue is empty afterwards.\<close>

theorem C10_flush_leaves_queue_empty_witness:
  "MutationQueue (DaemonState ex_queued) \<noteq> []
   \<and> (case FlushQueue ex_queued of
        Inl e \<Rightarrow> False
      | Inr s' \<Rightarrow> MutationQueue (DaemonState s') = []
                 \<and> recordQueue (Observer (DaemonState s')) = [])"
proof -
  have ne: "MutationQueue (DaemonState ex_queued) \<noteq> []" by (simp add: ex_queued_def)
  have ret: "(case FlushQueue ex_queued of Inl e \<Rightarrow> False | Inr s' \<Rightarrow> True)" by code_simp
  then obtain s' where s': "FlushQueue ex_queued = Inr s'" by (auto split: sum.splits)
  from C10_flush_leaves_queue_empty [OF s'] s' ne show ?thesis by simp
qed

section \<open>Positions after an update\<close>



section \<open>Operations that are skipped, and operations that throw\<close>









section \<open>Stopping the observer\<close>

text \<open>
  Claim C8, as stated, fails: \<open>toggleObserve(false)\<close> only calls \<open>disconnect\<close>, which empties
  the observer's record queue. In the example a typed character is waiting in the observer;
  after the stop it is in neither queue.
\<close>

theorem C8_stop_drops_pending_records:
  "recordQueue (Observer (DaemonState ex_pending)) = [ex_text_record]
   \<and> MutationQueue (DaemonState (toggleObserve ex_pending False)) = []
   \<and> recordQueue (Observer (DaemonState (toggleObserve ex_pending False))) = []"
  by (simp add: ex_pending_def ex_idle_def toggleObserve_def disconnect_def)

text \<open>
  Claim C8, amended. \<open>toggleObserve(false)\<close> disconnects the observer and leaves the mutation
  queue as it is, the observer's undelivered records being discarded; stopping twice is the
  same as stopping once and starting twice the same as starting once. The undelivered
  records are merged by \<open>FlushQueue\<close> itself, before it stops the observer: flushing with
  records waiting in the observer is flushing after their delivery to the queue.
\<close>

theorem C8_stop_disconnects_and_flush_merges:
  "observing (Observer (DaemonState (toggleObserve s False))) = False
   \<and> recordQueue (Observer (DaemonState (toggleObserve s False))) = []
   \<and> MutationQueue (DaemonState (toggleObserve s False)) = MutationQueue (DaemonState s)
   \<and> toggleObserve (toggleObserve s False) False = toggleObserve s False
   \<and> toggleObserve (toggleObserve s True) True = toggleObserve s True
   \<and> FlushQueue s = FlushQueue (deliver s)"
  by (simp add: toggleObserve_def disconnect_def observe_def FlushQueue_def deliver_def
      takeRecords_def)

section \<open>The store: chains of ancestors\<close>

lemma chain_in_simps:
  "chain_in i (DNode i k ks) = [DNode i k ks]"
  "i \<noteq> n \<Longrightarrow> chain ks n = [] \<Longrightarrow> chain_in n (DNode i k ks) = []"
  "i \<noteq> n \<Longrightarrow> chain ks n \<noteq> [] \<Longrightarrow> chain_in n (DNode i k ks) = chain ks n @ [DNode i k ks]"
  by (auto split: list.splits)

lemma chain_Cons:
  "chain_in n t = [] \<Longrightarrow> chain (t # ts) n = chain ts n"
  "chain_in n t \<noteq> [] \<Longrightarrow> chain (t # ts) n = chain_in n t"
  by (auto split: list.splits)

declare chain_in.simps [simp del] chain.simps(2) [simp del]

lemma chain_cases:
  obtains (here) "chain_in n (DNode i k ks) = [DNode i k ks]" "i = n"
  | (absent) "chain_in n (DNode i k ks) = []" "i \<noteq> n" "chain ks n = []"
  | (below) "chain_in n (DNode i k ks) = chain ks n @ [DNode i k ks]" "i \<noteq> n" "chain ks n \<noteq> []"
  by (cases "i = n"; cases "chain ks n = []") (auto simp: chain_in_simps)

lemma chain_ident:
  "chain_in n t = c # cs \<Longrightarrow> ident c = n"
  "chain F n = c # cs \<Longrightarrow> ident c = n"
proof (induction n t and F n arbitrary: c cs and c cs rule: chain_in_chain.induct)
  case (1 n i k ks)
  then show ?case
    by (cases rule: chain_cases [of n i k ks]) (auto simp: Cons_eq_append_conv neq_Nil_conv)
next
  case (2 n)
  then show ?case by simp
next
  case (3 t ts n)
  then show ?case by (cases "chain_in n t = []") (auto simp: chain_Cons)
qed

lemma chain_empty_iff:
  "chain_in n t = [] \<longleftrightarrow> n \<notin> set (ids t)"
  "chain F n = [] \<longleftrightarrow> n \<notin> set (ids_list F)"
proof (induction n t and F n rule: chain_in_chain.induct)
  case (1 n i k ks)
  then show ?case by (cases rule: chain_cases [of n i k ks]) auto
next
  case (2 n)
  then show ?case by simp
next
  case (3 t ts n)
  then show ?case by (cases "chain_in n t = []") (auto simp: chain_Cons)
qed

lemma ident_in_ids [simp]: "ident c \<in> set (ids c)"
  by (cases c) simp

lemma chain_ids:
  "c \<in> set (chain_in n t) \<Longrightarrow> set (ids c) \<subseteq> set (ids t)"
  "c \<in> set (chain F n) \<Longrightarrow> set (ids c) \<subseteq> set (ids_list F)"
proof (induction n t and F n rule: chain_in_chain.induct)
  case (1 n i k ks)
  then show ?case by (cases rule: chain_cases [of n i k ks]) auto
next
  case (2 n)
  then show ?case by simp
next
  case (3 t ts n)
  then show ?case by (cases "chain_in n t = []") (auto simp: chain_Cons)
qed

lemma chain_last:
  "chain_in n t = cs @ [c] \<Longrightarrow> c = t"
  "chain F n = cs @ [c] \<Longrightarrow> c \<in> set F"
proof (induction n t and F n arbitrary: cs c and cs c rule: chain_in_chain.induct)
  case (1 n i k ks)
  then show ?case by (cases rule: chain_cases [of n i k ks]) auto
next
  case (2 n)
  then show ?case by simp
next
  case (3 t ts n)
  then show ?case by (cases "chain_in n t = []") (auto simp: chain_Cons)
qed

lemma chain_linked:
  "chain_in n t = cs @ c # p # rest \<Longrightarrow> c \<in> set (childNodes p)"
  "chain F n = cs @ c # p # rest \<Longrightarrow> c \<in> set (childNodes p)"
proof (induction n t and F n arbitrary: cs c p rest and cs c p rest rule: chain_in_chain.induct)
  case (1 n i k ks)
  show ?case
  proof (cases rule: chain_cases [of n i k ks])
    case here
    with "1.prems" show ?thesis by simp
  next
    case absent
    with "1.prems" show ?thesis by simp
  next
    case below
    with "1.prems" have eq: "chain ks n @ [DNode i k ks] = cs @ c # p # rest" by simp
    show ?thesis
    proof (cases rest rule: rev_cases)
      case Nil
      with eq have "chain ks n = cs @ [c]" "p = DNode i k ks" by auto
      with chain_last(2) show ?thesis by fastforce
    next
      case (snoc rest' x)
      with eq have "chain ks n = cs @ c # p # rest'" by auto
      from "1.IH" [OF below(2) this] show ?thesis .
    qed
  qed
next
  case (2 n)
  then show ?case by simp
next
  case (3 t ts n)
  then show ?case by (cases "chain_in n t = []") (auto simp: chain_Cons)
qed

lemma chain_of_ancestor:
  "distinct (ids t) \<Longrightarrow> chain_in n t = cs @ p # rest \<Longrightarrow> chain_in (ident p) t = p # rest"
  "distinct (ids_list F) \<Longrightarrow> chain F n = cs @ p # rest \<Longrightarrow> chain F (ident p) = p # rest"
proof (induction n t and F n arbitrary: cs p rest and cs p rest rule: chain_in_chain.induct)
  case (1 n i k ks)
  show ?case
  proof (cases rule: chain_cases [of n i k ks])
    case here
    with "1.prems" show ?thesis by (auto simp: Cons_eq_append_conv chain_in_simps)
  next
    case absent
    with "1.prems" show ?thesis by simp
  next
    case below
    with "1.prems" have eq: "chain ks n @ [DNode i k ks] = cs @ p # rest" by simp
    show ?thesis
    proof (cases rest rule: rev_cases)
      case Nil
      with eq have "p = DNode i k ks" by auto
      with Nil show ?thesis by (simp add: chain_in_simps)
    next
      case (snoc rest' x)
      with eq have c: "chain ks n = cs @ p # rest'" and x: "x = DNode i k ks" by auto
      from "1.prems" have d: "distinct (ids_list ks)" by simp
      from "1.IH" [OF below(2) d c] have ih: "chain ks (ident p) = p # rest'" .
      from c have "p \<in> set (chain ks n)" by simp
      from chain_ids(2) [OF this] have "ident p \<in> set (ids_list ks)" by auto
      with "1.prems" have "i \<noteq> ident p" by auto
      with ih snoc x show ?thesis by (simp add: chain_in_simps)
    qed
  qed
next
  case (2 n)
  then show ?case by simp
next
  case (3 t ts n)
  show ?case
  proof (cases "chain_in n t = []")
    case True
    with "3.prems" have c: "chain ts n = cs @ p # rest" by (simp add: chain_Cons)
    from "3.prems" have d: "distinct (ids_list ts)" by simp
    from "3.IH"(2) True d c have ih: "chain ts (ident p) = p # rest" by (simp add: neq_Nil_conv)
    from c have "p \<in> set (chain ts n)" by simp
    from chain_ids(2) [OF this] have "ident p \<in> set (ids_list ts)" by auto
    with "3.prems" have "ident p \<notin> set (ids t)" by auto
    then have "chain_in (ident p) t = []" by (simp add: chain_empty_iff)
    with ih show ?thesis by (simp add: chain_Cons)
  next
    case False
    with "3.prems" have c: "chain_in n t = cs @ p # rest" by (simp add: chain_Cons)
    from "3.prems" have d: "distinct (ids t)" by simp
    from "3.IH"(1) [OF d c] have "chain_in (ident p) t = p # rest" .
    then show ?thesis by (simp add: chain_Cons)
  qed
qed

section \<open>The address of a node\<close>

lemma count_text_siblings_eq:
  "count_text_siblings xs k = k + length (filter (\<lambda>s. nodeType s = TEXT_NODE) xs)"
  by (induction xs arbitrary: k) auto

lemma count_same_name_eq:
  "ident nd \<in> ident ` set ks \<Longrightarrow>
   count_same_name nd ks c =
     Some (c + length (filter (\<lambda>s. nodeType s = 1 \<and> nodeName s = nodeName nd)
                        (takeWhile (\<lambda>s. ident s \<noteq> ident nd) ks)))"
  by (induction ks arbitrary: c) auto

lemma getXPathFromChain_step:
  assumes "nd \<in> set (childNodes parent)"
  shows "getXPathFromChain w (nd # parent # up) =
    (if has_id nd then ''//*[@id='' @ [CHR 0x22] @ id_string nd @ [CHR 0x22] @ '']''
     else if className nd = className w \<and> tagName nd = tagName w then ''//body''
     else if nodeType nd = TEXT_NODE then
       getXPathFromChain w (parent # up) @ ''/text()[''
         @ string_of_nat (1 + length (filter (\<lambda>s. nodeType s = TEXT_NODE) (preceding nd parent)))
         @ '']''
     else
       getXPathFromChain w (parent # up) @ ''/'' @ toLowerCase (nodeName nd) @ ''[''
         @ string_of_nat
             (1 + length (filter (\<lambda>s. nodeType s = 1 \<and> nodeName s = nodeName nd)
                            (preceding nd parent)))
         @ '']'')"
proof -
  from assms have "ident nd \<in> ident ` set (childNodes parent)" by auto
  from count_same_name_eq [OF this, of 0] show ?thesis
    by (simp add: Let_def previousSiblings_def preceding_def count_text_siblings_eq
        rev_filter [symmetric]
        del: getXPathFromChain.simps(2) add: getXPathFromChain.simps(2) [of w nd "parent # up"])
qed

text \<open>
  Claim C5 (the address rules, in priority order). For a node \<open>nd\<close> with a parent, in a
  store whose nodes have distinct identities, \<open>getXPathFromNode\<close> returns: the identifier
  lookup \<open>//*[@id="..."]\<close> if the node has a non-empty id; otherwise \<open>//body\<close> if the node has
  the tag name and the class name of the watched element; otherwise, for a text node, the
  parent's address followed by \<open>/text()[k]\<close> with \<open>k\<close> one more than the number of text nodes
  among the preceding siblings; otherwise the parent's address followed by \<open>/name[k]\<close> with
  the lower-cased node name and \<open>k\<close> one more than the number of preceding element siblings of
  the same node name.
\<close>

theorem C5_address_rules:
  assumes "distinct (ids_list F)" and "lookup F r = Some w"
    and "chain F n = nd # parent # up"
  shows "getXPathFromNode F (Some r) n =
    (if has_id nd then ''//*[@id='' @ [CHR 0x22] @ id_string nd @ [CHR 0x22] @ '']''
     else if className nd = className w \<and> tagName nd = tagName w then ''//body''
     else if nodeType nd = TEXT_NODE then
       getXPathFromNode F (Some r) (ident parent) @ ''/text()[''
         @ string_of_nat (1 + length (filter (\<lambda>s. nodeType s = TEXT_NODE) (preceding nd parent)))
         @ '']''
     else
       getXPathFromNode F (Some r) (ident parent) @ ''/'' @ toLowerCase (nodeName nd) @ ''[''
         @ string_of_nat
             (1 + length (filter (\<lambda>s. nodeType s = 1 \<and> nodeName s = nodeName nd)
                            (preceding nd parent)))
         @ '']'')"
proof -
  from chain_linked(2) [of F n "[]" nd parent up] assms(3)
  have child: "nd \<in> set (childNodes parent)" by simp
  from chain_of_ancestor(2) [OF assms(1), of n "[nd]" parent up] assms(3)
  have up: "chain F (ident parent) = parent # up" by simp
  show ?thesis
    unfolding getXPathFromNode_def
    by (simp only: option.case assms(2) assms(3) up getXPathFromChain_step [OF child])
qed

text \<open>Claim C5 at the second paragraph of the small example.\<close>

theorem C5_address_rules_witness:
  "distinct (ids_list [ex_root]) \<and> lookup [ex_root] 0 = Some ex_root
   \<and> chain [ex_root] 3 = [ex_para, ex_root]
   \<and> getXPathFromNode [ex_root] (Some 0) 3 = getXPathFromNode [ex_root] (Some 0) 0 @ ''/p[2]''
   \<and> getXPathFromNode [ex_root] (Some 0) 3 = ''//body/p[2]''"
proof -
  have d: "distinct (ids_list [ex_root])" by code_simp
  have l: "lookup [ex_root] 0 = Some ex_root" by code_simp
  have c: "chain [ex_root] 3 = [ex_para, ex_root]" by code_simp
  have e: "(if has_id ex_para then ''//*[@id='' @ [CHR 0x22] @ id_string ex_para @ [CHR 0x22] @ '']''
     else if className ex_para = className ex_root \<and> tagName ex_para = tagName ex_root then ''//body''
     else if nodeType ex_para = TEXT_NODE then
       getXPathFromNode [ex_root] (Some 0) (ident ex_root) @ ''/text()[''
         @ string_of_nat (1 + length (filter (\<lambda>s. nodeType s = TEXT_NODE) (preceding ex_para ex_root)))
         @ '']''
     else
       getXPathFromNode [ex_root] (Some 0) (ident ex_root) @ ''/'' @ toLowerCase (nodeName ex_para) @ ''[''
         @ string_of_nat
             (1 + length (filter (\<lambda>s. nodeType s = 1 \<and> nodeName s = nodeName ex_para)
                            (preceding ex_para ex_root)))
         @ '']'') = getXPathFromNode [ex_root] (Some 0) 0 @ ''/p[2]''" by code_simp
  have v: "getXPathFromNode [ex_root] (Some 0) 0 @ ''/p[2]'' = ''//body/p[2]''" by code_simp
  from C5_address_rules [OF d l c] e v d l c show ?thesis by simp
qed

section \<open>Text edits\<close>

lemma replace_data_ident [simp]: "ident (replace_data n s t) = ident t"
  by (cases t) simp

lemma chain_replace_data:
  "chain_in m (replace_data n s t) = map (replace_data n s) (chain_in m t)"
  "chain (replace_data_list n s F) m = map (replace_data n s) (chain F m)"
proof (induction m t and F m rule: chain_in_chain.induct)
  case (1 m i k ks)
  show ?case
  proof (cases rule: chain_cases [of m i k ks])
    case here
    then show ?thesis by (simp add: chain_in_simps)
  next
    case absent
    with 1 show ?thesis by (simp add: chain_in_simps)
  next
    case below
    with 1 show ?thesis by (simp add: chain_in_simps)
  qed
next
  case (2 m)
  then show ?case by simp
next
  case (3 t ts m)
  then show ?case by (cases "chain_in m t = []") (simp_all add: chain_Cons)
qed

lemma lookup_replace_data:
  "lookup (replace_data_list n s F) m = map_option (replace_data n s) (lookup F m)"
  by (simp add: lookup_def chain_replace_data split: list.splits)

lemma lookup_ident: "lookup F n = Some c \<Longrightarrow> ident c = n"
  by (auto simp: lookup_def split: list.splits dest: chain_ident(2))

lemma textContent_replace_data:
  "ident c = n \<Longrightarrow> data_of c = Some old \<Longrightarrow> textContent (replace_data n s c) = Some s"
  by (cases c rule: data_of.cases) auto

lemma data_of_replace_data:
  "ident c = n \<Longrightarrow> data_of c = Some old \<Longrightarrow> data_of (replace_data n s c) = Some s"
  by (cases c rule: data_of.cases) auto

lemma compile_record_text:
  "mtype m = characterData \<Longrightarrow> oldValue m \<noteq> None \<Longrightarrow> removedNodes m = [] \<Longrightarrow>
   addedNodes m = [] \<Longrightarrow>
   compile_record G w m ops =
     Inr (G, if latest ops = Some (text_operation G w m) then ops
             else ops @ [text_operation G w m])"
  by (simp add: compile_record_def compile_text_def Let_def)

text \<open>
  Claim C4 (text operations are not repeated). Two edits in a row of the text of the same
  node, with nothing else in the queue, compile to exactly one \<open>TEXT\<close> operation, for the
  node's address and with the text the node has after the second edit. In general a text
  record pushes its operation unless the operation equals the last one of the log.
\<close>

theorem C4_text_edits_collapse:
  assumes "mutations F [SetData t a, SetData t b] = Some (F', [r1, r2])"
    and "MutationQueue (DaemonState s) = [r1, r2]" and "liveDOM s = F'"
    and "mtype m = characterData" and "oldValue m \<noteq> None"
    and "removedNodes m = []" and "addedNodes m = []"
  shows "compile_queue s [] =
           Inr (set_queue s [],
                [\<lparr>otype = TEXT,
                  node = XPathStr (getXPathFromNode F' (WatchElementRef s) t),
                  nodeText = Some b, parentNode = None, siblingNode = None\<rparr>])
         \<and> compile_record G w m ops =
             Inr (G, if latest ops = Some (text_operation G w m) then ops
                     else ops @ [text_operation G w m])"
proof -
  from assms(1) obtain t0 old0 t1 old1 where
    l0: "lookup F t = Some t0" "data_of t0 = Some old0" and
    l1: "lookup (replace_data_list t a F) t = Some t1" "data_of t1 = Some old1" and
    F': "F' = replace_data_list t b (replace_data_list t a F)" and
    r1: "r1 = \<lparr>mtype = characterData, target = t, addedNodes = [], removedNodes = [],
               nextSibling = None, oldValue = Some old0\<rparr>" and
    r2: "r2 = \<lparr>mtype = characterData, target = t, addedNodes = [], removedNodes = [],
               nextSibling = None, oldValue = Some old1\<rparr>"
    by (auto split: option.splits)
  from l1 have "ident t1 = t" by (simp add: lookup_ident)
  with l1 have tc: "(case lookup F' t of None \<Rightarrow> None | Some t \<Rightarrow> textContent t) = Some b"
    by (simp add: F' lookup_replace_data [of t b] textContent_replace_data)
  let ?op = "\<lparr>otype = TEXT, node = XPathStr (getXPathFromNode F' (WatchElementRef s) t),
               nodeText = Some b, parentNode = None, siblingNode = None\<rparr>"
  have op1: "text_operation F' (WatchElementRef s) r1 = ?op"
    and op2: "text_operation F' (WatchElementRef s) r2 = ?op"
    by (simp_all add: text_operation_def r1 r2 tc)
  have q: "MutationQueue (DaemonState s) = [r1] @ [r2]" using assms(2) by simp
  have c2: "compile_record (liveDOM s) (WatchElementRef s) r2 [] = Inr (F', [?op])"
    using compile_record_text [of r2 F' "WatchElementRef s" "[]"] op2
    by (simp add: r2 assms(3) latest_def)
  let ?s1 = "(set_queue s [r1])\<lparr>liveDOM := F'\<rparr>"
  have q1: "MutationQueue (DaemonState ?s1) = [] @ [r1]" by simp
  have c1: "compile_record (liveDOM ?s1) (WatchElementRef ?s1) r1 [?op] = Inr (F', [?op])"
    using compile_record_text [of r1 F' "WatchElementRef s" "[?op]"] op1
    by (simp add: r1 latest_def)
  have fin: "(set_queue ?s1 [])\<lparr>liveDOM := F'\<rparr> = set_queue s []"
    using assms(3) by (simp add: set_queue_def)
  have "compile_queue s [] = compile_queue ?s1 [?op]"
    by (simp add: compile_queue_snoc [OF q] c2)
  also have "\<dots> = compile_queue (set_queue s []) [?op]"
    by (simp only: compile_queue_snoc [OF q1] c1 sum.case prod.case fin)
  also have "\<dots> = Inr (set_queue s [], [?op])"
    by (simp add: compile_queue_nil)
  finally show ?thesis
    using compile_record_text [OF assms(4-7)] by simp
qed

text \<open>Claim C4 at the small example: \<open>Hello\<close> becomes \<open>Hello!\<close> and then \<open>Hello!!\<close>.\<close>

theorem C4_text_edits_collapse_witness:
  "mutations [ex_root] [SetData 2 ''Hello!'', SetData 2 ''Hello!!'']
     = Some (ex_after_typing, [ex_first_stroke, ex_second_stroke])
   \<and> compile_queue ex_two_strokes [] =
       Inr (set_queue ex_two_strokes [],
            [\<lparr>otype = TEXT, node = XPathStr ''//body/p[1]/text()[1]'',
              nodeText = Some ''Hello!!'', parentNode = None, siblingNode = None\<rparr>])"
proof -
  have m: "mutations [ex_root] [SetData 2 ''Hello!'', SetData 2 ''Hello!!'']
             = Some (ex_after_typing, [ex_first_stroke, ex_second_stroke])"
    by code_simp
  have q: "MutationQueue (DaemonState ex_two_strokes) = [ex_first_stroke, ex_second_stroke]"
    by (simp add: ex_two_strokes_def)
  have l: "liveDOM ex_two_strokes = ex_after_typing" by (simp add: ex_two_strokes_def)
  have a: "getXPathFromNode ex_after_typing (WatchElementRef ex_two_strokes) 2
             = ''//body/p[1]/text()[1]''"
    by code_simp
  have r: "mtype ex_first_stroke = characterData" "oldValue ex_first_stroke \<noteq> None"
    "removedNodes ex_first_stroke = []" "addedNodes ex_first_stroke = []"
    by (simp_all add: ex_first_stroke_def)
  from C4_text_edits_collapse [OF m q l r] a m show ?thesis by simp
qed

section \<open>Numbers and names in an address\<close>

lemma string_of_nat_small: "n < 10 \<Longrightarrow> string_of_nat n = [char_of (48 + n)]"
  by (simp add: string_of_nat.simps)

lemma string_of_nat_large:
  "10 \<le> n \<Longrightarrow> string_of_nat n = string_of_nat (n div 10) @ [char_of (48 + n mod 10)]"
  by (subst string_of_nat.simps) simp

lemma is_digit_char_of: "(d::nat) < 10 \<Longrightarrow> is_digit (char_of (48 + d))"
  by (simp add: is_digit_def)

lemma string_of_nat_digits: "list_all is_digit (string_of_nat n)"
proof (induction n rule: string_of_nat.induct)
  case (1 n)
  show ?case
  proof (cases "n < 10")
    case True
    then show ?thesis by (simp add: string_of_nat_small is_digit_char_of)
  next
    case False
    with 1 show ?thesis by (simp add: string_of_nat_large is_digit_char_of)
  qed
qed

lemma string_of_nat_nonempty: "string_of_nat n \<noteq> []"
  by (subst string_of_nat.simps) simp

lemma nat_of_digits_append:
  "nat_of_digits (xs @ ys) acc = nat_of_digits ys (nat_of_digits xs acc)"
  by (induction xs arbitrary: acc) auto

lemma nat_of_digits_string_of_nat: "nat_of_digits (string_of_nat n) 0 = n"
proof (induction n rule: string_of_nat.induct)
  case (1 n)
  show ?case
  proof (cases "n < 10")
    case True
    then show ?thesis by (simp add: string_of_nat_small)
  next
    case False
    with 1 have "nat_of_digits (string_of_nat (n div 10)) 0 = n div 10" by simp
    with False show ?thesis
      by (simp add: string_of_nat_large nat_of_digits_append)
  qed
qed

lemma parse_index_string_of_nat:
  "parse_index (CHR ''['' # string_of_nat k @ '']'') = Some k"
  by (simp add: parse_index_def string_of_nat_nonempty string_of_nat_digits
      nat_of_digits_string_of_nat)

lemma takeWhile_append_stop:
  "\<forall>x \<in> set xs. P x \<Longrightarrow> \<not> P y \<Longrightarrow> takeWhile P (xs @ y # ys) = xs"
  by (induction xs) auto

lemma dropWhile_append_stop:
  "\<forall>x \<in> set xs. P x \<Longrightarrow> \<not> P y \<Longrightarrow> dropWhile P (xs @ y # ys) = y # ys"
  by (induction xs) auto

lemma parse_step_text:
  "parse_step (''text()'' @ ''['' @ string_of_nat k @ '']'') = Some (XText k)"
proof -
  have "parse_step (''text()'' @ CHR ''['' # string_of_nat k @ '']'') = Some (XText k)"
    unfolding parse_step_def
    by (subst takeWhile_append_stop, simp, simp, subst dropWhile_append_stop, simp, simp)
       (simp add: parse_index_string_of_nat)
  then show ?thesis by simp
qed

lemma parse_step_name:
  assumes "nm \<noteq> []" "list_all is_name_char nm"
  shows "parse_step (nm @ ''['' @ string_of_nat k @ '']'') = Some (XElem nm k)"
proof -
  have nb: "\<forall>c \<in> set nm. c \<noteq> CHR ''[''"
    using assms(2) by (auto simp: list_all_iff is_name_char_def)
  have nt: "nm \<noteq> ''text()''"
    using assms(2) by (auto simp: list_all_iff is_name_char_def)
  have "parse_step (nm @ CHR ''['' # string_of_nat k @ '']'') = Some (XElem nm k)"
    unfolding parse_step_def
    by (subst takeWhile_append_stop [OF nb], simp, subst dropWhile_append_stop [OF nb], simp)
       (simp add: parse_index_string_of_nat nt assms)
  then show ?thesis by simp
qed

lemma split_on_no_delim: "d \<notin> set seg \<Longrightarrow> split_on d seg = [seg]"
  by (induction seg) auto

lemma split_on_nonempty: "split_on d s \<noteq> []"
  by (induction s) (auto split: list.splits)

lemma split_on_append:
  "d \<notin> set seg \<Longrightarrow> split_on d (s @ d # seg) = split_on d s @ [seg]"
proof (induction s)
  case Nil
  then show ?case by (simp add: split_on_no_delim)
next
  case (Cons c s)
  then show ?case
    by (cases "split_on d s") (auto simp: split_on_nonempty)
qed

lemma parse_segments_append:
  "parse_segments segs = Some sts \<Longrightarrow> parse_step seg = Some st \<Longrightarrow>
   parse_segments (segs @ [seg]) = Some (sts @ [st])"
  by (induction segs arbitrary: sts) (auto split: option.splits)

lemma parse_steps_append:
  assumes "parse_steps st S = Some (st, steps)" and "CHR ''/'' \<notin> set seg"
    and "parse_step seg = Some step"
  shows "parse_steps st (S @ CHR ''/'' # seg) = Some (st, steps @ [step])"
proof (cases "S = []")
  case True
  with assms show ?thesis
    by (simp add: parse_steps_def split_on_no_delim)
next
  case False
  with assms(1) obtain segs where
    sp: "split_on (CHR ''/'') S = [] # segs" and ps: "parse_segments segs = Some steps"
    by (auto simp: parse_steps_def split: list.splits option.splits)
  have "split_on (CHR ''/'') (S @ CHR ''/'' # seg) = [] # (segs @ [seg])"
    by (simp add: split_on_append [OF assms(2)] sp)
  with parse_segments_append [OF ps assms(3)] show ?thesis
    by (simp add: parse_steps_def)
qed

lemma parse_xpath_start:
  assumes "st = XBody \<or> (\<exists>x. st = XId x \<and> CHR 0x22 \<notin> set x)"
  shows "parse_xpath (start_string st @ S) = parse_steps st S"
proof -
  from assms consider "st = XBody" | x where "st = XId x" "CHR 0x22 \<notin> set x" by blast
  then show ?thesis
  proof cases
    case 1
    then show ?thesis by (simp add: parse_xpath_def)
  next
    case 2
    have nq: "\<forall>c \<in> set x. c \<noteq> CHR 0x22" using 2(2) by auto
    have tw: "takeWhile (\<lambda>c. c \<noteq> CHR 0x22) (x @ CHR 0x22 # CHR '']'' # S) = x"
      by (rule takeWhile_append_stop [OF nq]) simp
    have dw: "dropWhile (\<lambda>c. c \<noteq> CHR 0x22) (x @ CHR 0x22 # CHR '']'' # S) = CHR 0x22 # CHR '']'' # S"
      by (rule dropWhile_append_stop [OF nq]) simp
    show ?thesis
      by (simp add: parse_xpath_def 2(1) Let_def tw dw)
  qed
qed

section \<open>Lower-casing node names\<close>

lemma of_char_toLowerCase_char:
  "(of_char (toLowerCase_char c) :: nat) =
     (if 65 \<le> (of_char c :: nat) \<and> (of_char c :: nat) \<le> 90 then of_char c + 32 else of_char c)"
  by (simp add: toLowerCase_char_def Let_def)

lemma toLowerCase_char_name:
  "is_html_name_char c \<Longrightarrow> is_name_char (toLowerCase_char c)"
  by (auto simp: is_html_name_char_def is_name_char_def Let_def of_char_toLowerCase_char)

lemma toLowerCase_char_inj:
  assumes "is_html_name_char c" "is_html_name_char c'"
    and "toLowerCase_char c = toLowerCase_char c'"
  shows "c = c'"
proof -
  from assms(3) have "(of_char (toLowerCase_char c) :: nat) = of_char (toLowerCase_char c')"
    by simp
  with assms(1,2) have "(of_char c :: nat) = of_char c'"
    by (auto simp: is_html_name_char_def Let_def of_char_toLowerCase_char split: if_splits)
  then show ?thesis by simp
qed

lemma toLowerCase_inj:
  "list_all is_html_name_char a \<Longrightarrow> list_all is_html_name_char b \<Longrightarrow>
   toLowerCase a = toLowerCase b \<Longrightarrow> a = b"
proof (induction a arbitrary: b)
  case Nil
  then show ?case by (simp add: toLowerCase_def)
next
  case (Cons x a)
  then show ?case
    by (cases b) (auto simp: toLowerCase_def dest: toLowerCase_char_inj)
qed

lemma toLowerCase_name:
  "html_name nm \<Longrightarrow> toLowerCase nm \<noteq> [] \<and> list_all is_name_char (toLowerCase nm)"
  by (auto simp: html_name_def toLowerCase_def list_all_iff toLowerCase_char_name)

lemma toLowerCase_no_slash: "html_name nm \<Longrightarrow> CHR ''/'' \<notin> set (toLowerCase nm)"
proof
  assume h: "html_name nm" and "CHR ''/'' \<in> set (toLowerCase nm)"
  with toLowerCase_name [OF h] have "is_name_char (CHR ''/'')" by (auto simp: list_all_iff)
  then show False by (simp add: is_name_char_def)
qed

lemma toLowerCase_idem: "html_name nm \<Longrightarrow> toLowerCase (toLowerCase nm) = toLowerCase nm"
proof -
  have "toLowerCase_char (toLowerCase_char c) = toLowerCase_char c" for c
  proof -
    have "(of_char (toLowerCase_char (toLowerCase_char c)) :: nat) = of_char (toLowerCase_char c)"
      by (simp add: of_char_toLowerCase_char)
    then show ?thesis by simp
  qed
  then show ?thesis by (simp add: toLowerCase_def)
qed

lemma string_of_nat_no_slash: "CHR ''/'' \<notin> set (string_of_nat k)"
proof
  assume "CHR ''/'' \<in> set (string_of_nat k)"
  with string_of_nat_digits [of k] have "is_digit (CHR ''/'')" by (auto simp: list_all_iff)
  then show False by (simp add: is_digit_def)
qed

section \<open>Evaluating a location path\<close>

lemma paths_iff:
  "q \<in> set (paths d) \<longleftrightarrow> node_at d q \<noteq> None"
  "q \<in> set (paths_list i ks) \<longleftrightarrow>
     (\<exists>j p. q = (i + j) # p \<and> j < length ks \<and> node_at (ks ! j) p \<noteq> None)"
proof (induction d and i ks arbitrary: q and q rule: paths_paths_list.induct)
  case (1 n k ks)
  show ?case
  proof (cases q)
    case Nil
    then show ?thesis by simp
  next
    case (Cons j p)
    have "q \<in> set (paths (DNode n k ks)) \<longleftrightarrow> q \<in> set (paths_list 0 ks)"
      using Cons by simp
    also have "\<dots> \<longleftrightarrow> (j < length ks \<and> node_at (ks ! j) p \<noteq> None)"
      using 1 [of q] Cons by auto
    finally show ?thesis using Cons by simp
  qed
next
  case (2 i)
  then show ?case by simp
next
  case (3 i c cs)
  show ?case
  proof
    assume "q \<in> set (paths_list i (c # cs))"
    then consider p where "q = i # p" "p \<in> set (paths c)" | "q \<in> set (paths_list (Suc i) cs)"
      by auto
    then show "\<exists>j p. q = (i + j) # p \<and> j < length (c # cs) \<and> node_at ((c # cs) ! j) p \<noteq> None"
    proof cases
      case 1
      with "3.IH"(1) [of p] have "node_at c p \<noteq> None" by simp
      with 1 show ?thesis by (intro exI [of _ 0] exI [of _ p]) simp
    next
      case 2
      with "3.IH"(2) [of q] obtain j p where
        "q = (Suc i + j) # p" "j < length cs" "node_at (cs ! j) p \<noteq> None" by auto
      then show ?thesis by (intro exI [of _ "Suc j"] exI [of _ p]) simp
    qed
  next
    assume "\<exists>j p. q = (i + j) # p \<and> j < length (c # cs) \<and> node_at ((c # cs) ! j) p \<noteq> None"
    then obtain j p where
      jp: "q = (i + j) # p" "j < length (c # cs)" "node_at ((c # cs) ! j) p \<noteq> None" by blast
    show "q \<in> set (paths_list i (c # cs))"
    proof (cases j)
      case 0
      with jp "3.IH"(1) [of p] show ?thesis by simp
    next
      case (Suc j')
      with jp have "\<exists>j p. q = (Suc i + j) # p \<and> j < length cs \<and> node_at (cs ! j) p \<noteq> None"
        by (intro exI [of _ j'] exI [of _ p]) simp
      with "3.IH"(2) [of q] show ?thesis by simp
    qed
  qed
qed

lemma find_unique:
  assumes "x \<in> set xs" "P x" "\<forall>y \<in> set xs. P y \<longrightarrow> y = x"
  shows "find P xs = Some x"
proof -
  from assms(1,2) obtain y where y: "find P xs = Some y"
    by (cases "find P xs") (auto simp: find_None_iff)
  then have "y \<in> set xs" "P y" by (auto simp: find_Some_iff)
  with assms(3) have "y = x" by blast
  with y show ?thesis by simp
qed

lemma filter_take_mono:
  assumes "i < j" "j \<le> length ks" "P (ks ! i)"
  shows "length (filter P (take i ks)) < length (filter P (take j ks))"
proof -
  from assms have i: "i < length ks" by simp
  from assms(1) obtain m where m: "j = i + Suc m" by (metis less_imp_Suc_add add_Suc_right)
  have d: "drop i ks = ks ! i # drop (Suc i) ks" using i by (rule Cons_nth_drop_Suc [symmetric])
  have "take j ks = take i ks @ take (Suc m) (drop i ks)" unfolding m by (rule take_add)
  also have "\<dots> = take i ks @ ks ! i # take m (drop (Suc i) ks)" unfolding d by simp
  finally show ?thesis using assms(3) by simp
qed

lemma filter_take_inj:
  assumes "i < length ks" "j < length ks" "P (ks ! i)" "P (ks ! j)"
    and "length (filter P (take i ks)) = length (filter P (take j ks))"
  shows "i = j"
proof (rule ccontr)
  assume "i \<noteq> j"
  then consider "i < j" | "j < i" by linarith
  then show False
  proof cases
    case 1
    from filter_take_mono [of i j ks P] 1 assms show False by simp
  next
    case 2
    from filter_take_mono [of j i ks P] 2 assms show False by simp
  qed
qed

lemma step_ok_unique: "step_ok s ks i \<Longrightarrow> step_ok s ks j \<Longrightarrow> i = j"
  by (cases s) (auto intro: filter_take_inj)

lemma steps_ok_length: "steps_ok d q steps r \<Longrightarrow> length r = length steps"
  by (induction d q steps r rule: steps_ok.induct) (auto split: option.splits)

lemma steps_ok_unique: "steps_ok d q steps r \<Longrightarrow> steps_ok d q steps r' \<Longrightarrow> r = r'"
proof (induction d q steps r arbitrary: r' rule: steps_ok.induct)
  case (1 doc q)
  then show ?case by (cases r') auto
next
  case (2 doc q s ss i r)
  then obtain j r'' where r': "r' = j # r''" by (cases r') auto
  from "2.prems" r' obtain par where par: "node_at doc q = Some par"
    and a: "step_ok s (childNodes par) i" "steps_ok doc (q @ [i]) ss r"
    and b: "step_ok s (childNodes par) j" "steps_ok doc (q @ [j]) ss r''"
    by (auto split: option.splits)
  from step_ok_unique [OF a(1) b(1)] have ij: "i = j" .
  with "2.IH" [OF par a(2)] b(2) r' show ?case by simp
qed auto

lemma steps_ok_snoc:
  "steps_ok d q steps r \<Longrightarrow> node_at d (q @ r) = Some par \<Longrightarrow> step_ok s (childNodes par) i \<Longrightarrow>
   steps_ok d q (steps @ [s]) (r @ [i])"
proof (induction d q steps r rule: steps_ok.induct)
  case (1 doc q)
  then show ?case by simp
next
  case (2 doc q s' ss j r)
  then show ?case by (auto split: option.splits)
qed auto

section \<open>Positions of the nodes of a chain\<close>

declare getXPathFromChain.simps(2) [simp del]

lemma chain_is_linked: "linked (chain F n)"
proof -
  have "chain F n = pre @ rest \<Longrightarrow> linked rest" for pre rest
  proof (induction rest arbitrary: pre rule: linked.induct)
    case (1 c p up)
    from chain_linked(2) [OF "1.prems"] have "c \<in> set (childNodes p)" .
    moreover from "1.prems" have "chain F n = (pre @ [c]) @ p # up" by simp
    from "1.IH" [OF this] have "linked (p # up)" .
    ultimately show ?case by simp
  qed auto
  from this [of "[]"] show ?thesis by simp
qed

lemma linked_tail: "linked (c # rest) \<Longrightarrow> linked rest"
  by (cases rest) auto

lemma linked_append: "linked (xs @ ys) \<Longrightarrow> linked xs \<and> linked ys"
proof (induction xs)
  case Nil
  then show ?case by simp
next
  case (Cons x xs)
  from linked_tail [of x "xs @ ys"] Cons have "linked xs" "linked ys" by simp_all
  moreover have "linked (x # xs)"
  proof (cases xs)
    case Nil
    then show ?thesis by simp
  next
    case (Cons y zs)
    with Cons.prems \<open>linked xs\<close> show ?thesis by simp
  qed
  ultimately show ?case by simp
qed

lemma linked_prefix_top: "linked (cs @ w # up) \<Longrightarrow> linked (cs @ [w])"
  by (induction cs rule: linked.induct) auto

lemma nodes_self [simp]: "t \<in> set (nodes t)"
  by (cases t) simp

lemma nodes_children:
  "p \<in> set (nodes t) \<Longrightarrow> set (nodes_list (childNodes p)) \<subseteq> set (nodes t)"
  "p \<in> set (nodes_list ts) \<Longrightarrow> set (nodes_list (childNodes p)) \<subseteq> set (nodes_list ts)"
  by (induction t and ts rule: nodes_nodes_list.induct) auto

lemma nodes_list_member: "c \<in> set ks \<Longrightarrow> c \<in> set (nodes_list ks)"
  by (induction ks) auto

lemma linked_below:
  "linked (cs @ [w]) \<Longrightarrow> c \<in> set cs \<Longrightarrow> c \<in> set (nodes_list (childNodes w))"
proof (induction cs arbitrary: c w rule: rev_induct)
  case Nil
  then show ?case by simp
next
  case (snoc x xs)
  from snoc.prems(1) have lx: "linked ([x] @ [w])" and lxs: "linked (xs @ [x])"
    using linked_append [of xs "[x] @ [w]"] linked_append [of "xs @ [x]" "[w]"] by simp_all
  from lx have xw: "x \<in> set (nodes_list (childNodes w))" by (simp add: nodes_list_member)
  show ?case
  proof (cases "c = x")
    case True
    with xw show ?thesis by simp
  next
    case False
    with snoc.prems(2) have "c \<in> set xs" by simp
    from snoc.IH [OF lxs this] have "c \<in> set (nodes_list (childNodes x))" .
    with nodes_children(2) [OF xw] show ?thesis by auto
  qed
qed

lemma ident_kids_in_ids: "c \<in> set ks \<Longrightarrow> ident c \<in> set (ids_list ks)"
  by (induction ks) auto

lemma distinct_kids: "distinct (ids_list ks) \<Longrightarrow> distinct (map ident ks)"
proof (induction ks)
  case Nil
  then show ?case by simp
next
  case (Cons t ts)
  then have "ident t \<notin> set (ids_list ts)" by (cases t) auto
  with Cons show ?case by (auto dest: ident_kids_in_ids)
qed

lemma nodes_distinct:
  "c \<in> set (nodes t) \<Longrightarrow> distinct (ids t) \<Longrightarrow> distinct (ids c)"
  "c \<in> set (nodes_list ts) \<Longrightarrow> distinct (ids_list ts) \<Longrightarrow> distinct (ids c)"
  by (induction t and ts rule: nodes_nodes_list.induct) auto

lemma chain_nodes:
  "c \<in> set (chain_in n t) \<Longrightarrow> c \<in> set (nodes t)"
  "c \<in> set (chain F n) \<Longrightarrow> c \<in> set (nodes_list F)"
proof (induction n t and F n rule: chain_in_chain.induct)
  case (1 n i k ks)
  then show ?case by (cases rule: chain_cases [of n i k ks]) auto
next
  case (2 n)
  then show ?case by simp
next
  case (3 t ts n)
  then show ?case by (cases "chain_in n t = []") (auto simp: chain_Cons)
qed

lemma chain_node_distinct:
  "distinct (ids_list F) \<Longrightarrow> c \<in> set (chain F n) \<Longrightarrow> distinct (map ident (childNodes c))"
proof -
  assume d: "distinct (ids_list F)" and c: "c \<in> set (chain F n)"
  from nodes_distinct(2) [OF chain_nodes(2) [OF c] d] have "distinct (ids c)" .
  then show ?thesis by (cases c) (simp add: distinct_kids)
qed

lemma nth_preceding:
  assumes "c \<in> set ks" "distinct (map ident ks)"
  shows "length (takeWhile (\<lambda>s. ident s \<noteq> ident c) ks) < length ks"
    and "ks ! length (takeWhile (\<lambda>s. ident s \<noteq> ident c) ks) = c"
    and "take (length (takeWhile (\<lambda>s. ident s \<noteq> ident c) ks)) ks
           = takeWhile (\<lambda>s. ident s \<noteq> ident c) ks"
  using assms by (induction ks) auto

lemma node_at_append:
  "node_at d (p @ q) = (case node_at d p of None \<Rightarrow> None | Some x \<Rightarrow> node_at x q)"
  by (induction d p rule: node_at.induct) auto

lemma node_at_position:
  assumes "linked (cs @ [w])" "\<forall>c \<in> set (cs @ [w]). distinct (map ident (childNodes c))"
  shows "node_at w (position (cs @ [w])) = Some (hd (cs @ [w]))"
  using assms
proof (induction cs)
  case Nil
  then show ?case by simp
next
  case (Cons c cs)
  obtain p up where pu: "cs @ [w] = p # up" by (cases "cs @ [w]") auto
  from Cons.prems(1) pu have cp: "c \<in> set (childNodes p)" and l: "linked (cs @ [w])" by simp_all
  from Cons.prems(2) pu have dp: "distinct (map ident (childNodes p))"
    by (metis list.set_intros(1,2) append_Cons)
  from Cons.IH [OF l] Cons.prems(2) pu have ih: "node_at w (position (p # up)) = Some p" by simp
  from nth_preceding [OF cp dp] have
    "length (preceding c p) < length (childNodes p)" "childNodes p ! length (preceding c p) = c"
    by (simp_all add: preceding_def)
  with ih show ?case by (simp add: pu node_at_append)
qed

lemma node_at_mirror_body:
  "node_at (mirror_of w) ([0, 1] @ q)
     = node_at (DNode 0 (ElementNode ''BODY'' [] []) (childNodes w)) q"
  by (simp add: mirror_of_def)

lemma node_at_same_kids: "childNodes a = childNodes b \<Longrightarrow> q \<noteq> [] \<Longrightarrow> node_at a q = node_at b q"
  by (cases q) simp_all

lemma position_nonempty: "cs \<noteq> [] \<Longrightarrow> position (cs @ [w]) \<noteq> []"
proof (cases cs)
  case Nil
  then show "cs \<noteq> [] \<Longrightarrow> ?thesis" by simp
next
  case (Cons c cs')
  obtain p up where "cs' @ [w] = p # up" by (cases "cs' @ [w]") auto
  with Cons show ?thesis by simp
qed

lemma node_at_mirror_position:
  assumes "linked (cs @ [w])" "\<forall>c \<in> set (cs @ [w]). distinct (map ident (childNodes c))"
    and "cs \<noteq> []"
  shows "node_at (mirror_of w) ([0, 1] @ position (cs @ [w])) = Some (hd cs)"
proof -
  from node_at_position [OF assms(1,2)] assms(3)
  have "node_at w (position (cs @ [w])) = Some (hd cs)" by (cases cs) simp_all
  moreover have "node_at (DNode 0 (ElementNode ''BODY'' [] []) (childNodes w)) (position (cs @ [w]))
                   = node_at w (position (cs @ [w]))"
    by (rule node_at_same_kids) (simp_all add: position_nonempty [OF assms(3)])
  ultimately show ?thesis by (simp only: node_at_mirror_body)
qed

lemma names_position_resolves:
  assumes "names_position d A P" "node_at d P \<noteq> None"
  shows "getNodeFromXPath (Some d) A = Inr (Some P)"
proof -
  from assms(1) obtain st S steps q0 rel where
    A: "A = start_string st @ S" and st: "st = XBody \<or> (\<exists>x. st = XId x \<and> CHR 0x22 \<notin> set x)"
    and ps: "parse_steps st S = Some (st, steps)" and P: "P = q0 @ rel"
    and so: "start_ok d st q0" and su: "\<forall>q. start_ok d st q \<longrightarrow> q = q0"
    and sk: "steps_ok d q0 steps rel"
    unfolding names_position_def by blast
  have parse: "parse_xpath A = Some (st, steps)"
    by (simp add: A parse_xpath_start [OF st] ps)
  from steps_ok_length [OF sk] have len: "length rel = length steps" .
  have here: "sel d (st, steps) P"
    by (simp add: sel_def P len so sk)
  have only: "\<forall>q \<in> set (paths d). sel d (st, steps) q \<longrightarrow> q = P"
  proof (intro ballI impI)
    fix q assume "sel d (st, steps) q"
    then have l: "length steps \<le> length q"
      and a: "start_ok d st (take (length q - length steps) q)"
      and b: "steps_ok d (take (length q - length steps) q) steps (drop (length q - length steps) q)"
      by (simp_all add: sel_def)
    from su a have t: "take (length q - length steps) q = q0" by simp
    from steps_ok_unique [OF sk] b t have "drop (length q - length steps) q = rel" by simp
    with t have "q0 @ rel = q" by (metis append_take_drop_id)
    with P show "q = P" by simp
  qed
  from assms(2) have "P \<in> set (paths d)" by (simp add: paths_iff)
  from find_unique [OF this, of "sel d (st, steps)"] here only
  have "find (sel d (st, steps)) (paths d) = Some P" by blast
  with parse show ?thesis by (simp add: getNodeFromXPath_def)
qed

lemma names_position_step:
  assumes "names_position d A P" "node_at d P = Some par" "step_ok s (childNodes par) i"
    and "parse_step seg = Some s" "CHR ''/'' \<notin> set seg"
  shows "names_position d (A @ CHR ''/'' # seg) (P @ [i])"
proof -
  from assms(1) obtain st S steps q0 rel where
    A: "A = start_string st @ S" and st: "st = XBody \<or> (\<exists>x. st = XId x \<and> CHR 0x22 \<notin> set x)"
    and ps: "parse_steps st S = Some (st, steps)" and P: "P = q0 @ rel"
    and so: "start_ok d st q0" and su: "\<forall>q. start_ok d st q \<longrightarrow> q = q0"
    and sk: "steps_ok d q0 steps rel"
    unfolding names_position_def by blast
  from parse_steps_append [OF ps assms(5,4)]
  have ps': "parse_steps st (S @ CHR ''/'' # seg) = Some (st, steps @ [s])" .
  from steps_ok_snoc [OF sk _ assms(3)] assms(2) P
  have sk': "steps_ok d q0 (steps @ [s]) (rel @ [i])" by simp
  show ?thesis
    unfolding names_position_def
    by (intro exI [of _ st] exI [of _ "S @ CHR ''/'' # seg"] exI [of _ "steps @ [s]"]
        exI [of _ q0] exI [of _ "rel @ [i]"]) (simp add: A st ps' P so su sk')
qed

lemma node_at_mirror_kids:
  assumes "linked (cs @ [w])" "\<forall>c \<in> set (cs @ [w]). distinct (map ident (childNodes c))"
  shows "\<exists>par. node_at (mirror_of w) ([0, 1] @ position (cs @ [w])) = Some par
               \<and> childNodes par = childNodes (hd (cs @ [w]))"
proof (cases "cs = []")
  case True
  then show ?thesis by (simp add: mirror_of_def)
next
  case False
  from node_at_mirror_position [OF assms False] False show ?thesis by (cases cs) simp_all
qed

lemma step_ok_text:
  assumes "c \<in> set ks" "distinct (map ident ks)" "nodeType c = TEXT_NODE"
  shows "step_ok (XText (1 + length (filter (\<lambda>s. nodeType s = TEXT_NODE)
                                      (takeWhile (\<lambda>s. ident s \<noteq> ident c) ks))))
           ks (length (takeWhile (\<lambda>s. ident s \<noteq> ident c) ks))"
  using nth_preceding [OF assms(1,2)] assms(3) by simp

lemma name_matches_same_name:
  assumes "html_name (nodeName c)" "nodeType s = 1 \<longrightarrow> html_name (nodeName s)"
  shows "name_matches (toLowerCase (nodeName c)) s \<longleftrightarrow> (nodeType s = 1 \<and> nodeName s = nodeName c)"
proof -
  have "toLowerCase (nodeName s) = toLowerCase (nodeName c) \<longleftrightarrow> nodeName s = nodeName c"
    if "nodeType s = 1"
    using that assms toLowerCase_inj [of "nodeName s" "nodeName c"]
    by (auto simp: html_name_def)
  then show ?thesis
    by (auto simp: name_matches_def is_element_def toLowerCase_idem [OF assms(1)])
qed

lemma step_ok_elem:
  assumes "c \<in> set ks" "distinct (map ident ks)" "nodeType c = 1" "html_name (nodeName c)"
    and "\<forall>s \<in> set ks. nodeType s = 1 \<longrightarrow> html_name (nodeName s)"
  shows "step_ok (XElem (toLowerCase (nodeName c))
                    (1 + length (filter (\<lambda>s. nodeType s = 1 \<and> nodeName s = nodeName c)
                                   (takeWhile (\<lambda>s. ident s \<noteq> ident c) ks))))
           ks (length (takeWhile (\<lambda>s. ident s \<noteq> ident c) ks))"
proof -
  let ?pre = "takeWhile (\<lambda>s. ident s \<noteq> ident c) ks"
  have "filter (name_matches (toLowerCase (nodeName c))) ?pre
          = filter (\<lambda>s. nodeType s = 1 \<and> nodeName s = nodeName c) ?pre"
  proof (rule filter_cong [OF refl])
    fix s assume "s \<in> set ?pre"
    then have "s \<in> set ks" by (rule set_takeWhileD [THEN conjunct1])
    with assms(5) have "nodeType s = 1 \<longrightarrow> html_name (nodeName s)" by blast
    from name_matches_same_name [OF assms(4) this]
    show "name_matches (toLowerCase (nodeName c)) s = (nodeType s = 1 \<and> nodeName s = nodeName c)" .
  qed
  moreover have "name_matches (toLowerCase (nodeName c)) c"
    using name_matches_same_name [OF assms(4), of c] assms(3,4) by simp
  ultimately show ?thesis
    using nth_preceding [OF assms(1,2)] by simp
qed

lemma nodes_nth_subset: "i < length ks \<Longrightarrow> set (nodes (ks ! i)) \<subseteq> set (nodes_list ks)"
proof (induction ks arbitrary: i)
  case Nil
  then show ?case by simp
next
  case (Cons t ts)
  then show ?case by (cases i) auto
qed

lemma node_at_in_nodes: "node_at t p = Some nd \<Longrightarrow> nd \<in> set (nodes t)"
proof (induction t p rule: node_at.induct)
  case (1 d)
  then show ?case by simp
next
  case (2 d i p)
  then have i: "i < length (childNodes d)" and "nd \<in> set (nodes (childNodes d ! i))"
    by (auto split: if_splits)
  with nodes_nth_subset [OF i] have "nd \<in> set (nodes_list (childNodes d))" by blast
  then show ?case by (cases d) simp
qed

lemma node_at_below: "node_at t p = Some nd \<Longrightarrow> p \<noteq> [] \<Longrightarrow> nd \<in> set (nodes_list (childNodes t))"
proof (cases p)
  case Nil
  then show "p \<noteq> [] \<Longrightarrow> ?thesis" by simp
next
  case (Cons i p')
  assume "node_at t p = Some nd"
  with Cons have i: "i < length (childNodes t)" and "node_at (childNodes t ! i) p' = Some nd"
    by (auto split: if_splits)
  from node_at_in_nodes [OF this(2)] nodes_nth_subset [OF i] show ?thesis by blast
qed

lemma placeable_not_body: "placeable w nd \<Longrightarrow> \<not> name_matches ''body'' nd"
proof
  assume p: "placeable w nd" and m: "name_matches ''body'' nd"
  from m have e: "nodeType nd = 1" and l: "toLowerCase (nodeName nd) = toLowerCase ''body''"
    by (simp_all add: name_matches_def is_element_def)
  from p e have h: "html_name (nodeName nd)" and nb: "nodeName nd \<noteq> ''BODY''"
    by (simp_all add: placeable_def TEXT_NODE_def)
  have "toLowerCase ''body'' = toLowerCase ''BODY''"
    by code_simp
  with l have "toLowerCase (nodeName nd) = toLowerCase ''BODY''" by simp
  moreover have "list_all is_html_name_char ''BODY''"
    by (simp add: is_html_name_char_def)
  ultimately have "nodeName nd = ''BODY''"
    using h toLowerCase_inj [of "nodeName nd" "''BODY''"] by (simp add: html_name_def)
  with nb show False by simp
qed

lemma body_unique:
  assumes "addressable w" "start_ok (mirror_of w) XBody q"
  shows "q = [0, 1]"
proof -
  from assms(2) obtain nd where ne: "q \<noteq> []" and nd: "node_at (mirror_of w) q = Some nd"
    and m: "name_matches ''body'' nd"
    by (auto split: option.splits)
  have html: "\<not> name_matches ''body'' (DNode 0 (ElementNode ''HTML'' [] []) ks)" for ks
    by (simp add: name_matches_def, code_simp)
  have head: "\<not> name_matches ''body'' (DNode 0 (ElementNode ''HEAD'' [] []) ks)" for ks
    by (simp add: name_matches_def, code_simp)
  from ne obtain j q1 where q: "q = j # q1" by (cases q) auto
  with nd have j: "j = 0" by (auto simp: mirror_of_def split: if_splits)
  show ?thesis
  proof (cases q1)
    case Nil
    with q j nd m html show ?thesis by (auto simp: mirror_of_def)
  next
    case (Cons j1 q2)
    with q j nd have "j1 = 0 \<or> j1 = 1"
      by (auto simp: mirror_of_def split: if_splits)
    then show ?thesis
    proof
      assume "j1 = 0"
      with Cons q j nd m head show ?thesis
        by (cases q2) (auto simp: mirror_of_def split: if_splits)
    next
      assume j1: "j1 = 1"
      show ?thesis
      proof (cases "q2 = []")
        case True
        with Cons q j j1 show ?thesis by simp
      next
        case False
        from nd Cons q j j1 have "node_at (DNode 0 (ElementNode ''BODY'' [] []) (childNodes w)) q2 = Some nd"
          using node_at_mirror_body [of w q2] by simp
        from node_at_below [OF this False] have "nd \<in> set (nodes_list (childNodes w))" by simp
        with assms(1) have "placeable w nd" by (simp add: addressable_def list_all_iff)
        with placeable_not_body m show ?thesis by blast
      qed
    qed
  qed
qed

lemma id_positions:
  "distinct (filter (\<lambda>i. i \<noteq> []) (map id_string (nodes t))) \<Longrightarrow>
   node_at t q = Some a \<Longrightarrow> node_at t q' = Some b \<Longrightarrow>
   id_string a = id_string b \<Longrightarrow> id_string a \<noteq> [] \<Longrightarrow> q = q'"
  "distinct (filter (\<lambda>i. i \<noteq> []) (map id_string (nodes_list ks))) \<Longrightarrow>
   j < length ks \<Longrightarrow> node_at (ks ! j) p = Some a \<Longrightarrow>
   j' < length ks \<Longrightarrow> node_at (ks ! j') p' = Some b \<Longrightarrow>
   id_string a = id_string b \<Longrightarrow> id_string a \<noteq> [] \<Longrightarrow> j = j' \<and> p = p'"
proof (induction t and ks arbitrary: q q' a b and j j' p p' a b rule: nodes_nodes_list.induct)
  case (1 i k ks)
  let ?t = "DNode i k ks"
  have below: "node_at ?t (x # r) = Some c \<Longrightarrow> id_string c \<noteq> [] \<Longrightarrow>
      id_string c \<in> set (filter (\<lambda>i. i \<noteq> []) (map id_string (nodes_list ks)))" for x r c
    using node_at_below [of ?t "x # r" c] by auto
  show ?case
  proof (cases q)
    case Nil
    note qn = Nil
    show ?thesis
    proof (cases q')
      case Nil
      with qn show ?thesis by simp
    next
      case (Cons x r)
      with "1.prems" qn below [of x r b] show ?thesis by auto
    qed
  next
    case (Cons x r)
    note qc = Cons
    show ?thesis
    proof (cases q')
      case Nil
      with "1.prems" qc below [of x r a] show ?thesis by auto
    next
      case (Cons x' r')
      from "1.prems" have d: "distinct (filter (\<lambda>i. i \<noteq> []) (map id_string (nodes_list ks)))"
        by (auto split: if_splits)
      from "1.prems"(2) qc have a: "x < length ks" "node_at (ks ! x) r = Some a"
        by (auto split: if_splits)
      from "1.prems"(3) Cons have b: "x' < length ks" "node_at (ks ! x') r' = Some b"
        by (auto split: if_splits)
      from "1.IH" [OF d a b "1.prems"(4,5)] qc Cons show ?thesis by simp
    qed
  qed
next
  case 2
  then show ?case by simp
next
  case (3 t ts)
  from "3.prems"(1) have dt: "distinct (filter (\<lambda>i. i \<noteq> []) (map id_string (nodes t)))"
    and dts: "distinct (filter (\<lambda>i. i \<noteq> []) (map id_string (nodes_list ts)))"
    and disj: "set (filter (\<lambda>i. i \<noteq> []) (map id_string (nodes t)))
               \<inter> set (filter (\<lambda>i. i \<noteq> []) (map id_string (nodes_list ts))) = {}"
    by simp_all
  have in_t: "node_at t r = Some c \<Longrightarrow> id_string c \<noteq> [] \<Longrightarrow>
      id_string c \<in> set (filter (\<lambda>i. i \<noteq> []) (map id_string (nodes t)))" for r c
    using node_at_in_nodes [of t r c] by auto
  have in_ts: "x < length ts \<Longrightarrow> node_at (ts ! x) r = Some c \<Longrightarrow> id_string c \<noteq> [] \<Longrightarrow>
      id_string c \<in> set (filter (\<lambda>i. i \<noteq> []) (map id_string (nodes_list ts)))" for x r c
    using node_at_in_nodes [of "ts ! x" r c] nodes_nth_subset [of x ts] by auto
  show ?case
  proof (cases j)
    case 0
    note j0 = 0
    show ?thesis
    proof (cases j')
      case 0
      with j0 "3.prems" "3.IH"(1) [OF dt, of p a p' b] show ?thesis by simp
    next
      case (Suc y)
      with j0 "3.prems" in_t [of p a] in_ts [of y p' b] disj show ?thesis by auto
    qed
  next
    case (Suc x)
    note jx = Suc
    show ?thesis
    proof (cases j')
      case 0
      with jx "3.prems" in_t [of p' b] in_ts [of x p a] disj show ?thesis by auto
    next
      case (Suc y)
      with jx "3.prems" "3.IH"(2) [OF dts, of x p a y p' b] show ?thesis by simp
    qed
  qed
qed

lemma id_unique:
  assumes "addressable w" "start_ok (mirror_of w) (XId x) q" "start_ok (mirror_of w) (XId x) q'"
  shows "q = q'"
proof -
  from assms(2) obtain a where a: "x \<noteq> []" "node_at (mirror_of w) q = Some a" "id_of a = Some x"
    by (auto split: option.splits)
  from assms(3) obtain b where b: "node_at (mirror_of w) q' = Some b" "id_of b = Some x"
    by (auto split: option.splits)
  from assms(1) have "distinct (filter (\<lambda>i. i \<noteq> []) (map id_string (nodes (mirror_of w))))"
    by (simp add: addressable_def mirror_of_def id_string_def)
  from id_positions(1) [OF this a(2) b(1)] a b show ?thesis by (simp add: id_string_def)
qed

lemma body_names_position:
  assumes "addressable w"
  shows "names_position (mirror_of w) ''//body'' [0, 1]"
proof -
  have m: "name_matches ''body'' (DNode 0 (ElementNode ''BODY'' [] []) (childNodes w))"
    by (simp add: name_matches_def is_element_def, code_simp)
  have so: "start_ok (mirror_of w) XBody [0, 1]"
    using m by (simp add: mirror_of_def)
  have su: "\<forall>q. start_ok (mirror_of w) XBody q \<longrightarrow> q = [0, 1]"
    using body_unique [OF assms] by blast
  have pa: "parse_steps XBody [] = Some (XBody, [])" by (simp add: parse_steps_def)
  have "''//body'' = start_string XBody @ []
        \<and> (XBody = XBody \<or> (\<exists>x. XBody = XId x \<and> CHR 0x22 \<notin> set x))
        \<and> parse_steps XBody [] = Some (XBody, [])
        \<and> [0, 1] = [0, 1] @ [] \<and> start_ok (mirror_of w) XBody [0, 1]
        \<and> (\<forall>q. start_ok (mirror_of w) XBody q \<longrightarrow> q = [0, 1])
        \<and> steps_ok (mirror_of w) [0, 1] [] []"
    by (intro conjI so su pa) simp_all
  then show ?thesis unfolding names_position_def by blast
qed

lemma id_names_position:
  assumes "addressable w" "node_at (mirror_of w) P = Some c" "has_id c"
    and "CHR 0x22 \<notin> set (id_string c)"
  shows "names_position (mirror_of w)
           (''//*[@id='' @ [CHR 0x22] @ id_string c @ [CHR 0x22] @ '']'') P"
proof -
  let ?x = "id_string c"
  from assms(3) have idc: "id_of c = Some ?x" "?x \<noteq> []"
    by (auto simp: has_id_def id_string_def split: option.splits)
  with assms(2) have so: "start_ok (mirror_of w) (XId ?x) P" by simp
  have su: "\<forall>q. start_ok (mirror_of w) (XId ?x) q \<longrightarrow> q = P"
    using id_unique [OF assms(1) _ so] by blast
  have pa: "parse_steps (XId ?x) [] = Some (XId ?x, [])" by (simp add: parse_steps_def)
  have "''//*[@id='' @ [CHR 0x22] @ id_string c @ [CHR 0x22] @ '']'' = start_string (XId ?x) @ []
        \<and> (XId ?x = XBody \<or> (\<exists>x. XId ?x = XId x \<and> CHR 0x22 \<notin> set x))
        \<and> parse_steps (XId ?x) [] = Some (XId ?x, [])
        \<and> P = P @ [] \<and> start_ok (mirror_of w) (XId ?x) P
        \<and> (\<forall>q. start_ok (mirror_of w) (XId ?x) q \<longrightarrow> q = P)
        \<and> steps_ok (mirror_of w) P [] []"
    by (intro conjI so su pa) (simp_all add: assms(4))
  then show ?thesis unfolding names_position_def by blast
qed

lemma address_names_position:
  assumes "addressable w" "linked (cs @ [w])"
    and "\<forall>c \<in> set (cs @ [w]). distinct (map ident (childNodes c))"
  shows "names_position (mirror_of w) (getXPathFromChain w (cs @ w # up))
           ([0, 1] @ position (cs @ [w]))"
  using assms(2,3)
proof (induction cs)
  case Nil
  from assms(1) have "getXPathFromChain w (w # up) = ''//body''"
    by (simp add: addressable_def getXPathFromChain.simps(2))
  with body_names_position [OF assms(1)] show ?case by simp
next
  case (Cons c cs)
  obtain p rest where pr: "cs @ w # up = p # rest" by (cases "cs @ w # up") auto
  then have hd: "hd (cs @ [w]) = p" by (cases cs) auto
  obtain up' where pu: "cs @ [w] = p # up'" using hd by (cases "cs @ [w]") auto
  from Cons.prems(1) pu have cp: "c \<in> set (childNodes p)" and l: "linked (cs @ [w])" by simp_all
  from Cons.prems(2) have dk: "\<forall>c \<in> set (cs @ [w]). distinct (map ident (childNodes c))" by simp
  from Cons.IH [OF l dk]
  have ih: "names_position (mirror_of w) (getXPathFromChain w (p # rest))
              ([0, 1] @ position (cs @ [w]))" by (simp add: pr)
  from node_at_mirror_kids [OF l dk] hd obtain par where
    par: "node_at (mirror_of w) ([0, 1] @ position (cs @ [w])) = Some par"
    and kids: "childNodes par = childNodes p" by auto
  from dk pu have dp: "distinct (map ident (childNodes p))" by (metis list.set_intros(1))
  have pos: "position ((c # cs) @ [w]) = position (cs @ [w]) @ [length (preceding c p)]"
    by (simp add: pu)
  from linked_below [OF Cons.prems(1), of c] have cw: "c \<in> set (nodes_list (childNodes w))" by simp
  with assms(1) have pl: "placeable w c" by (simp add: addressable_def list_all_iff)
  from assms(1) have we: "nodeType w = 1" by (simp add: addressable_def)
  have addr: "getXPathFromChain w ((c # cs) @ w # up) =
    (if has_id c then ''//*[@id='' @ [CHR 0x22] @ id_string c @ [CHR 0x22] @ '']''
     else if className c = className w \<and> tagName c = tagName w then ''//body''
     else if nodeType c = TEXT_NODE then
       getXPathFromChain w (p # rest) @ ''/text()[''
         @ string_of_nat (1 + length (filter (\<lambda>s. nodeType s = TEXT_NODE) (preceding c p)))
         @ '']''
     else
       getXPathFromChain w (p # rest) @ ''/'' @ toLowerCase (nodeName c) @ ''[''
         @ string_of_nat
             (1 + length (filter (\<lambda>s. nodeType s = 1 \<and> nodeName s = nodeName c)
                            (preceding c p)))
         @ '']'')"
    using getXPathFromChain_step [OF cp, of w rest] by (simp add: pr)
  have here: "node_at (mirror_of w) ([0, 1] @ position ((c # cs) @ [w])) = Some c"
    using node_at_mirror_position [OF Cons.prems(1,2)] by simp
  show ?case
  proof (cases "has_id c")
    case True
    then have "nodeType c = 1" by (cases c rule: id_of.cases) (auto simp: has_id_def)
    with pl have "CHR 0x22 \<notin> set (id_string c)" by (simp add: placeable_def TEXT_NODE_def)
    from id_names_position [OF assms(1) here True this] True addr show ?thesis by simp
  next
    case noid: False
    have nosame: "\<not> (className c = className w \<and> tagName c = tagName w)"
    proof (cases "nodeType c = TEXT_NODE")
      case True
      with we show ?thesis
        by (cases c rule: nodeType.cases; cases w rule: nodeType.cases) (auto simp: TEXT_NODE_def)
    next
      case False
      with pl show ?thesis by (simp add: placeable_def)
    qed
    show ?thesis
    proof (cases "nodeType c = TEXT_NODE")
      case True
      let ?k = "1 + length (filter (\<lambda>s. nodeType s = TEXT_NODE) (preceding c p))"
      let ?seg = "''text()'' @ ''['' @ string_of_nat ?k @ '']''"
      have so: "step_ok (XText ?k) (childNodes par) (length (preceding c p))"
        using step_ok_text [OF cp dp True] by (simp add: kids preceding_def)
      have ns: "CHR ''/'' \<notin> set ?seg" by (simp add: string_of_nat_no_slash)
      have "getXPathFromChain w ((c # cs) @ w # up)
              = getXPathFromChain w (p # rest) @ CHR ''/'' # ?seg"
        using addr noid nosame True by simp
      with names_position_step [OF ih par so parse_step_text ns] pos
      show ?thesis by simp
    next
      case False
      with pl have el: "nodeType c = 1" and hn: "html_name (nodeName c)"
        by (simp_all add: placeable_def)
      let ?k = "1 + length (filter (\<lambda>s. nodeType s = 1 \<and> nodeName s = nodeName c) (preceding c p))"
      let ?seg = "toLowerCase (nodeName c) @ ''['' @ string_of_nat ?k @ '']''"
      have sib: "\<forall>s \<in> set (childNodes p). nodeType s = 1 \<longrightarrow> html_name (nodeName s)"
      proof (intro ballI impI)
        fix s assume s: "s \<in> set (childNodes p)" and e: "nodeType s = 1"
        have "s \<in> set (nodes_list (childNodes w))"
        proof (cases "cs = []")
          case True
          with pu s show ?thesis by (simp add: nodes_list_member)
        next
          case False
          with hd have "p \<in> set cs" by (cases cs) auto
          from linked_below [OF l this] have "p \<in> set (nodes_list (childNodes w))" .
          from nodes_children(2) [OF this] s show ?thesis by (auto dest: nodes_list_member)
        qed
        with assms(1) have "placeable w s" by (simp add: addressable_def list_all_iff)
        with e show "html_name (nodeName s)" by (simp add: placeable_def TEXT_NODE_def)
      qed
      have so: "step_ok (XElem (toLowerCase (nodeName c)) ?k) (childNodes par) (length (preceding c p))"
        using step_ok_elem [OF cp dp el hn sib] by (simp add: kids preceding_def)
      have ns: "CHR ''/'' \<notin> set ?seg"
        by (simp add: string_of_nat_no_slash toLowerCase_no_slash [OF hn])
      have ps: "parse_step ?seg = Some (XElem (toLowerCase (nodeName c)) ?k)"
        using toLowerCase_name [OF hn] by (intro parse_step_name) simp_all
      have "getXPathFromChain w ((c # cs) @ w # up)
              = getXPathFromChain w (p # rest) @ CHR ''/'' # ?seg"
        using addr noid nosame False by simp
      with names_position_step [OF ih par so ps ns] pos
      show ?thesis by simp
    qed
  qed
qed

text \<open>
  Claim C3, as stated, fails. The address starts at \<open>//body\<close>, which in the live document is
  the page's body and not the watched element: for the second paragraph of the example editor
  the address computed from the live tree finds no node when it is resolved in the live
  document.
\<close>

theorem C3_address_lost_in_live_document:
  "getXPathFromNode ex_live (Some 5) 8 = ''//body/p[2]''
   \<and> getNodeFromXPath (Some ex_document) (getXPathFromNode ex_live (Some 5) 8) = Inr None"
  by code_simp

text \<open>
  Claim C3, amended. In a store with distinct node identities, let \<open>n\<close> be the watched element
  \<open>w\<close> or a node below it (\<open>cs\<close> are the nodes from \<open>n\<close> up to the child of \<open>w\<close>), and let the
  content of \<open>w\<close> be addressable. Resolving the address of \<open>n\<close> in the mirror document of
  \<open>w\<close>, whose body holds a copy of the children of \<open>w\<close>, finds the position that \<open>n\<close> has below
  \<open>w\<close>, under the body; the node there is the copy of \<open>n\<close>.
\<close>

theorem C3_address_resolves_in_mirror:
  assumes "distinct (ids_list F)" and "chain F n = cs @ w # up" and "ident w = r"
    and "addressable w"
  shows "getNodeFromXPath (Some (mirror_of w)) (getXPathFromNode F (Some r) n)
           = Inr (Some ([0, 1] @ position (cs @ [w])))
         \<and> (cs \<noteq> [] \<longrightarrow>
              node_at (mirror_of w) ([0, 1] @ position (cs @ [w])) = lookup F n)"
proof -
  from chain_of_ancestor(2) [OF assms(1,2)] assms(3) have cw: "chain F r = w # up" by simp
  then have lw: "lookup F r = Some w" by (simp add: lookup_def)
  from chain_is_linked [of F n] assms(2) have l: "linked (cs @ [w])"
    by (simp add: linked_prefix_top)
  have dk: "\<forall>c \<in> set (cs @ [w]). distinct (map ident (childNodes c))"
  proof
    fix c assume "c \<in> set (cs @ [w])"
    with assms(2) have "c \<in> set (chain F n)" by auto
    from chain_node_distinct [OF assms(1) this] show "distinct (map ident (childNodes c))" .
  qed
  have ne: "node_at (mirror_of w) ([0, 1] @ position (cs @ [w])) \<noteq> None"
  proof -
    from node_at_mirror_kids [OF l dk] obtain par where
      par: "node_at (mirror_of w) ([0, 1] @ position (cs @ [w])) = Some par" by blast
    show ?thesis unfolding par by simp
  qed
  have "getXPathFromNode F (Some r) n = getXPathFromChain w (cs @ w # up)"
    by (simp add: getXPathFromNode_def lw assms(2))
  with names_position_resolves [OF address_names_position [OF assms(4) l dk, of up] ne]
  have res: "getNodeFromXPath (Some (mirror_of w)) (getXPathFromNode F (Some r) n)
           = Inr (Some ([0, 1] @ position (cs @ [w])))" by simp
  have "node_at (mirror_of w) ([0, 1] @ position (cs @ [w])) = lookup F n" if "cs \<noteq> []"
  proof -
    from that assms(2) have "lookup F n = Some (hd cs)" by (cases cs) (auto simp: lookup_def)
    with node_at_mirror_position [OF l dk that] show ?thesis by simp
  qed
  with res show ?thesis by blast
qed

text \<open>Claim C3, amended, at the text of the second paragraph of the example editor.\<close>

theorem C3_address_resolves_in_mirror_witness:
  "distinct (ids_list ex_live) \<and> ident ex_main = 5 \<and> addressable ex_main
   \<and> getXPathFromNode ex_live (Some 5) 9 = ''//body/p[2]/text()[1]''
   \<and> getNodeFromXPath (Some (mirror_of ex_main)) (getXPathFromNode ex_live (Some 5) 9)
       = Inr (Some [0, 1, 1, 0])
   \<and> node_at (mirror_of ex_main) [0, 1, 1, 0] = lookup ex_live 9"
proof -
  let ?cs = "[DNode 9 (TextNode ''B'') [], DNode 8 (ElementNode ''P'' [] []) [DNode 9 (TextNode ''B'') []]]"
  let ?up = "[DNode 4 (ElementNode ''SECTION'' [] ''Editor'') [ex_main],
              DNode 3 (ElementNode ''BODY'' [] [])
                [DNode 4 (ElementNode ''SECTION'' [] ''Editor'') [ex_main]],
              DNode 1 (ElementNode ''HTML'' [] [])
                [DNode 2 (ElementNode ''HEAD'' [] []) [],
                 DNode 3 (ElementNode ''BODY'' [] [])
                   [DNode 4 (ElementNode ''SECTION'' [] ''Editor'') [ex_main]]],
              ex_document]"
  have d: "distinct (ids_list ex_live)" by code_simp
  have c: "chain ex_live 9 = ?cs @ ex_main # ?up" by code_simp
  have i: "ident ex_main = 5" by code_simp
  have a: "addressable ex_main" by code_simp
  have p: "[0, 1] @ position (?cs @ [ex_main]) = [0, 1, 1, 0]" by code_simp
  have x: "getXPathFromNode ex_live (Some 5) 9 = ''//body/p[2]/text()[1]''" by code_simp
  note r = C3_address_resolves_in_mirror [OF d c i a, unfolded p]
  from r d i a x show ?thesis by (simp del: node_at.simps)
qed

section \<open>Pruning a subtree\<close>

lemma prune_ident [simp]: "ident (prune n t) = ident t"
  by (cases t) simp

lemma prune_kind [simp]: "kind (prune n t) = kind t"
  by (cases t) simp

lemma ids_prune_subset:
  "set (ids (prune n t)) \<subseteq> set (ids t)"
  "set (ids_list (prune_list n ts)) \<subseteq> set (ids_list ts)"
  by (induction n t and n ts rule: prune_prune_list.induct) auto

lemma distinct_prune:
  "distinct (ids t) \<Longrightarrow> distinct (ids (prune n t))"
  "distinct (ids_list ts) \<Longrightarrow> distinct (ids_list (prune_list n ts))"
proof (induction n t and n ts rule: prune_prune_list.induct)
  case (1 n i k ks)
  then show ?case using ids_prune_subset(2) [of n ks] by auto
next
  case (2 n)
  then show ?case by simp
next
  case (3 n t ts)
  then show ?case using ids_prune_subset [of n] by (auto; blast)
qed

lemma prune_removes:
  "n \<notin> set (ids_list (childNodes (prune n t)))"
  "n \<notin> set (ids_list (prune_list n ts))"
proof (induction n t and n ts rule: prune_prune_list.induct)
  case (1 n i k ks)
  then show ?case by simp
next
  case (2 n)
  then show ?case by simp
next
  case (3 n t ts)
  then show ?case by (cases t) auto
qed

lemma prune_absent:
  "n \<notin> set (ids_list (childNodes t)) \<Longrightarrow> prune n t = t"
  "n \<notin> set (ids_list ts) \<Longrightarrow> prune_list n ts = ts"
proof (induction n t and n ts rule: prune_prune_list.induct)
  case (1 n i k ks)
  then show ?case by simp
next
  case (2 n)
  then show ?case by simp
next
  case (3 n t ts)
  then show ?case by (cases t) auto
qed

lemma chain_prune:
  "n \<notin> ident ` set (chain_in m t) \<Longrightarrow> chain_in m (prune n t) = map (prune n) (chain_in m t)"
  "n \<notin> ident ` set (chain ts m) \<Longrightarrow> chain (prune_list n ts) m = map (prune n) (chain ts m)"
proof (induction n t and n ts rule: prune_prune_list.induct)
  case (1 n i k ks)
  show ?case
  proof (cases rule: chain_cases [of m i k ks])
    case here
    then show ?thesis by (simp add: chain_in_simps)
  next
    case absent
    with 1 show ?thesis by (simp add: chain_in_simps)
  next
    case below
    with 1 show ?thesis by (simp add: chain_in_simps)
  qed
next
  case (2 n)
  then show ?case by simp
next
  case (3 n t ts)
  show ?case
  proof (cases "chain_in m t = []")
    case True
    note e = True
    show ?thesis
    proof (cases "ident t = n")
      case True
      with 3 e show ?thesis by (simp add: chain_Cons)
    next
      case False
      with 3 e show ?thesis by (simp add: chain_Cons)
    qed
  next
    case False
    then obtain c cs where c: "chain_in m t = cs @ [c]" by (cases "chain_in m t" rule: rev_cases) auto
    from chain_last(1) [OF this] have "c = t" .
    with c "3.prems" False have "ident t \<noteq> n" by (auto simp: chain_Cons)
    with 3 False show ?thesis by (simp add: chain_Cons)
  qed
qed

section \<open>Grafting a subtree\<close>

lemma graft_ident [simp]: "ident (graft p c r t) = ident t"
  by (cases t) simp

lemma graft_kind [simp]: "kind (graft p c r t) = kind t"
  by (cases t) simp

lemma graft_absent:
  "p \<notin> set (ids t) \<Longrightarrow> graft p c r t = t"
  "p \<notin> set (ids_list ts) \<Longrightarrow> graft_list p c r ts = ts"
  by (induction p c r t and p c r ts rule: graft_graft_list.induct) auto

lemma ids_list_append [simp]: "ids_list (xs @ ys) = ids_list xs @ ids_list ys"
  by (induction xs) auto

lemma set_insert_before: "set (insert_before s r ks) = insert s (set ks)"
  by (induction s r ks rule: insert_before.induct) auto

lemma ids_insert_before:
  "mset (ids_list (insert_before s r ks)) = mset (ids s) + mset (ids_list ks)"
  by (induction s r ks rule: insert_before.induct) auto

lemma mset_ids_graft:
  "distinct (ids t) \<Longrightarrow> p \<in> set (ids t) \<Longrightarrow>
   mset (ids (graft p c r t)) = mset (ids t) + mset (ids c)"
  "distinct (ids_list ts) \<Longrightarrow> p \<in> set (ids_list ts) \<Longrightarrow>
   mset (ids_list (graft_list p c r ts)) = mset (ids_list ts) + mset (ids c)"
proof (induction p c r t and p c r ts rule: graft_graft_list.induct)
  case (1 t s r i k ks)
  then show ?case by (auto simp: ids_insert_before)
next
  case (2 t s r)
  then show ?case by simp
next
  case (3 t s r c cs)
  show ?case
  proof (cases "t \<in> set (ids c)")
    case True
    with "3.prems" have "t \<notin> set (ids_list cs)" by auto
    with 3 True show ?thesis by (simp add: graft_absent)
  next
    case False
    with 3 show ?thesis by (simp add: graft_absent)
  qed
qed


lemma chain_insert_before_new:
  "m \<notin> set (ids_list ks) \<Longrightarrow> chain (insert_before c r ks) m = chain_in m c"
proof (induction c r ks rule: insert_before.induct)
  case (1 s ks)
  then show ?case
  proof (induction ks)
    case Nil
    then show ?case by (cases "chain_in m s = []") (simp_all add: chain_Cons)
  next
    case (Cons a ks)
    then have "chain_in m a = []" by (simp add: chain_empty_iff)
    with Cons show ?case by (simp add: chain_Cons)
  qed
next
  case (2 s r)
  then show ?case by (cases "chain_in m s = []") (simp_all add: chain_Cons)
next
  case (3 s r k ks)
  then have e: "chain_in m k = []" by (simp add: chain_empty_iff)
  from "3.prems" have "chain ks m = []" by (simp add: chain_empty_iff)
  with 3 e show ?case
    by (cases "chain_in m s = []") (simp_all add: chain_Cons)
qed

lemma chain_graft_new:
  "distinct (ids t) \<Longrightarrow> p \<in> set (ids t) \<Longrightarrow> m \<in> set (ids c) \<Longrightarrow>
   set (ids c) \<inter> set (ids t) = {} \<Longrightarrow>
   chain_in m (graft p c r t) = chain_in m c @ map (graft p c r) (chain_in p t)"
  "distinct (ids_list ts) \<Longrightarrow> p \<in> set (ids_list ts) \<Longrightarrow> m \<in> set (ids c) \<Longrightarrow>
   set (ids c) \<inter> set (ids_list ts) = {} \<Longrightarrow>
   chain (graft_list p c r ts) m = chain_in m c @ map (graft p c r) (chain ts p)"
proof (induction p c r t and p c r ts rule: graft_graft_list.induct)
  case (1 t s r i k ks)
  from "1.prems"(3,4) have im: "i \<noteq> m" and mks: "m \<notin> set (ids_list ks)" by auto
  from "1.prems"(3) have ne: "chain_in m s \<noteq> []" by (simp add: chain_empty_iff)
  show ?case
  proof (cases "i = t")
    case True
    with im mks ne show ?thesis
      by (simp add: chain_in_simps chain_insert_before_new)
  next
    case False
    with "1.prems" have tk: "t \<in> set (ids_list ks)" by simp
    then have pne: "chain ks t \<noteq> []" by (simp add: chain_empty_iff)
    from "1.IH" [OF False _ tk "1.prems"(3)] "1.prems"(1,4)
    have ih: "chain (graft_list t s r ks) m = chain_in m s @ map (graft t s r) (chain ks t)"
      by auto
    with ne have "chain (graft_list t s r ks) m \<noteq> []" by simp
    with False im ih pne show ?thesis by (simp add: chain_in_simps)
  qed
next
  case (2 t s r)
  then show ?case by simp
next
  case (3 t s r c cs)
  from "3.prems"(3) have ne: "chain_in m s \<noteq> []" by (simp add: chain_empty_iff)
  show ?case
  proof (cases "t \<in> set (ids c)")
    case True
    from "3.IH"(1) [OF _ True "3.prems"(3)] "3.prems"(1,4)
    have ih: "chain_in m (graft t s r c) = chain_in m s @ map (graft t s r) (chain_in t c)"
      by auto
    from True have "chain_in t c \<noteq> []" by (simp add: chain_empty_iff)
    with ih ne show ?thesis by (simp add: chain_Cons)
  next
    case False
    with "3.prems" have tcs: "t \<in> set (ids_list cs)" by simp
    from "3.IH"(2) [OF _ tcs "3.prems"(3)] "3.prems"(1,4)
    have ih: "chain (graft_list t s r cs) m = chain_in m s @ map (graft t s r) (chain cs t)"
      by auto
    from False have g: "graft t s r c = c" "chain_in t c = []"
      by (simp_all add: graft_absent chain_empty_iff)
    from "3.prems"(3,4) have "chain_in m c = []" by (auto simp: chain_empty_iff)
    with ih g show ?thesis by (simp add: chain_Cons)
  qed
qed

lemma chain_in_member:
  "distinct (ids_list F) \<Longrightarrow> t \<in> set F \<Longrightarrow> m \<in> set (ids t) \<Longrightarrow> chain F m = chain_in m t"
proof (induction F)
  case Nil
  then show ?case by simp
next
  case (Cons a F)
  show ?case
  proof (cases "t = a")
    case True
    with Cons.prems(3) have "chain_in m a \<noteq> []" by (simp add: chain_empty_iff)
    with True show ?thesis by (simp add: chain_Cons)
  next
    case False
    with Cons.prems have t: "t \<in> set F" by simp
    then have "set (ids t) \<subseteq> set (ids_list F)" by (induction F) auto
    with Cons.prems have "m \<notin> set (ids a)" by auto
    then have "chain_in m a = []" by (simp add: chain_empty_iff)
    with Cons t show ?thesis by (simp add: chain_Cons)
  qed
qed

lemma ids_list_member: "m \<in> set (ids_list G) \<Longrightarrow> \<exists>t \<in> set G. m \<in> set (ids t)"
  by (induction G) auto

lemma mset_ids_insort:
  "mset (ids_list (insort_key ident c G)) = mset (ids c) + mset (ids_list G)"
  by (induction G) auto

lemma chain_insort:
  assumes "distinct (ids c @ ids_list G)"
  shows "chain (insort_key ident c G) m = (if m \<in> set (ids c) then chain_in m c else chain G m)"
proof -
  from assms have "distinct (ids_list (insort_key ident c G))"
    using mset_ids_insort [of c G]
    by (metis distinct_append mset_append mset_eq_imp_distinct_iff)
  note d = this
  from assms have dG: "distinct (ids_list G)" by simp
  show ?thesis
  proof (cases "m \<in> set (ids c)")
    case True
    with chain_in_member [OF d, of c m] show ?thesis by (simp add: set_insort_key)
  next
    case False
    show ?thesis
    proof (cases "m \<in> set (ids_list G)")
      case True
      then obtain t where t: "t \<in> set G" "m \<in> set (ids t)" using ids_list_member by blast
      with chain_in_member [OF d, of t m] chain_in_member [OF dG, of t m] False
      show ?thesis by (simp add: set_insort_key)
    next
      case nG: False
      have "set (ids_list (insort_key ident c G)) = set (ids c) \<union> set (ids_list G)"
        using mset_ids_insort [of c G] by (metis mset_append set_append set_mset_mset)
      with False nG have "chain (insort_key ident c G) m = []" "chain G m = []"
        by (simp_all add: chain_empty_iff)
      with False show ?thesis by simp
    qed
  qed
qed

lemma prune_insort: "ident c = n \<Longrightarrow> prune_list n (insort_key ident c G) = prune_list n G"
  by (induction G) auto

section \<open>Undoing a removal and an insertion\<close>

lemma chain_through:
  "distinct (ids t) \<Longrightarrow> chain_in n t = c # up \<Longrightarrow> m \<in> set (ids c) \<Longrightarrow>
   chain_in m t = chain_in m c @ up"
  "distinct (ids_list F) \<Longrightarrow> chain F n = c # up \<Longrightarrow> m \<in> set (ids c) \<Longrightarrow>
   chain F m = chain_in m c @ up"
proof (induction n t and F n arbitrary: c up and c up rule: chain_in_chain.induct)
  case (1 n i k ks)
  show ?case
  proof (cases rule: chain_cases [of n i k ks])
    case here
    with "1.prems" show ?thesis by simp
  next
    case absent
    with "1.prems" show ?thesis by simp
  next
    case below
    with "1.prems"(2) obtain up' where c: "chain ks n = c # up'" and up: "up = up' @ [DNode i k ks]"
      by (cases "chain ks n") auto
    from "1.prems"(1) have d: "distinct (ids_list ks)" by simp
    from "1.IH" [OF below(2) d c "1.prems"(3)] have ih: "chain ks m = chain_in m c @ up'" .
    from c have "c \<in> set (chain ks n)" by simp
    from chain_ids(2) [OF this] "1.prems"(3) have "m \<in> set (ids_list ks)" by auto
    with "1.prems"(1) have im: "i \<noteq> m" by auto
    from "1.prems"(3) have "chain_in m c \<noteq> []" by (simp add: chain_empty_iff)
    with ih im up show ?thesis by (simp add: chain_in_simps)
  qed
next
  case (2 n)
  then show ?case by simp
next
  case (3 t ts n)
  show ?case
  proof (cases "chain_in n t = []")
    case True
    with "3.prems" have c: "chain ts n = c # up" by (simp add: chain_Cons)
    from "3.prems" have d: "distinct (ids_list ts)" by simp
    from "3.IH"(2) True d c "3.prems"(3) have ih: "chain ts m = chain_in m c @ up"
      by (simp add: neq_Nil_conv)
    from c have "c \<in> set (chain ts n)" by simp
    from chain_ids(2) [OF this] "3.prems"(3) have "m \<in> set (ids_list ts)" by auto
    with "3.prems"(1) have "m \<notin> set (ids t)" by auto
    then have "chain_in m t = []" by (simp add: chain_empty_iff)
    with ih show ?thesis by (simp add: chain_Cons)
  next
    case False
    with "3.prems" have c: "chain_in n t = c # up" by (simp add: chain_Cons)
    from "3.prems" have d: "distinct (ids t)" by simp
    from "3.IH"(1) [OF d c "3.prems"(3)] have ih: "chain_in m t = chain_in m c @ up" .
    from "3.prems"(3) have "chain_in m c \<noteq> []" by (simp add: chain_empty_iff)
    with ih show ?thesis by (simp add: chain_Cons)
  qed
qed

lemma chain_in_child:
  "distinct (ids P) \<Longrightarrow> S \<in> set (childNodes P) \<Longrightarrow> chain_in (ident S) P = [S, P]"
proof -
  assume d: "distinct (ids P)" and S: "S \<in> set (childNodes P)"
  obtain i k ks where P: "P = DNode i k ks" by (cases P)
  from d P have dk: "distinct (ids_list ks)" and i: "i \<notin> set (ids_list ks)" by simp_all
  from S P have "ident S \<in> set (ids_list ks)" by (simp add: ident_kids_in_ids)
  with i have ne: "i \<noteq> ident S" by auto
  from S P chain_in_member [OF dk, of S "ident S"] have "chain ks (ident S) = chain_in (ident S) S"
    by simp
  also have "\<dots> = [S]" by (cases S) (simp add: chain_in_simps)
  finally show ?thesis using ne P by (simp add: chain_in_simps)
qed

lemma chain_of_child:
  assumes "distinct (ids_list F)" "chain F (ident P) = P # up" "S \<in> set (childNodes P)"
  shows "chain F (ident S) = S # P # up"
proof -
  from assms(2) have "P \<in> set (chain F (ident P))" by simp
  from nodes_distinct(2) [OF chain_nodes(2) [OF this] assms(1)] have d: "distinct (ids P)" .
  from assms(3) have "ident S \<in> set (ids P)"
    by (cases P) (auto dest: ident_kids_in_ids)
  from chain_through(2) [OF assms(1,2) this] chain_in_child [OF d assms(3)]
  show ?thesis by simp
qed

lemma chain_distinct_idents:
  "distinct (ids t) \<Longrightarrow> distinct (map ident (chain_in n t))"
  "distinct (ids_list F) \<Longrightarrow> distinct (map ident (chain F n))"
proof (induction n t and F n rule: chain_in_chain.induct)
  case (1 n i k ks)
  show ?case
  proof (cases rule: chain_cases [of n i k ks])
    case here
    then show ?thesis by simp
  next
    case absent
    then show ?thesis by simp
  next
    case below
    have "i \<notin> ident ` set (chain ks n)"
    proof
      assume "i \<in> ident ` set (chain ks n)"
      then obtain x where x: "x \<in> set (chain ks n)" "ident x = i" by auto
      from chain_ids(2) [OF x(1)] x(2) have "i \<in> set (ids_list ks)" by auto
      with "1.prems" show False by simp
    qed
    with below 1 show ?thesis by simp
  qed
next
  case (2 n)
  then show ?case by simp
next
  case (3 t ts n)
  then show ?case by (cases "chain_in n t = []") (simp_all add: chain_Cons)
qed

lemma prune_list_top:
  "distinct (ids_list ks) \<Longrightarrow> c \<in> set ks \<Longrightarrow>
   prune_list (ident c) ks = filter (\<lambda>x. ident x \<noteq> ident c) ks"
proof (induction ks)
  case Nil
  then show ?case by simp
next
  case (Cons t ts)
  show ?case
  proof (cases "ident t = ident c")
    case True
    with Cons.prems have "ident c \<notin> set (ids_list ts)" by (cases t) auto
    then have "prune_list (ident c) ts = ts"
      and "filter (\<lambda>x. ident x \<noteq> ident c) ts = ts"
      by (auto simp: prune_absent intro!: filter_True dest: ident_kids_in_ids)
    with True show ?thesis by simp
  next
    case False
    with Cons.prems have c: "c \<in> set ts" by auto
    then have "ident c \<in> set (ids_list ts)" by (rule ident_kids_in_ids)
    with Cons.prems have "ident c \<notin> set (ids t)" by auto
    then have "prune (ident c) t = t" by (cases t) (simp add: prune_absent)
    with Cons c False show ?thesis by simp
  qed
qed

lemma insert_before_restores:
  assumes "distinct (map ident ks)" "c \<in> set ks"
  shows "insert_before c
           (case dropWhile (\<lambda>s. ident s \<noteq> ident c) ks of
              _ # s # _ \<Rightarrow> Some (ident s) | _ \<Rightarrow> None)
           (filter (\<lambda>x. ident x \<noteq> ident c) ks) = ks"
  using assms
proof (induction ks)
  case Nil
  then show ?case by simp
next
  case (Cons t ts)
  show ?case
  proof (cases "ident t = ident c")
    case True
    with Cons.prems have tc: "t = c" by (auto simp: image_iff)
    from Cons.prems tc have "ident c \<notin> ident ` set ts" by simp
    then have nf: "\<forall>x \<in> set ts. ident x \<noteq> ident c" by (metis imageI)
    then have f: "filter (\<lambda>x. ident x \<noteq> ident c) ts = ts" by (auto intro: filter_True)
    show ?thesis
    proof (cases ts)
      case Nil
      with tc show ?thesis by simp
    next
      case (Cons s ss)
      with nf have "ident s \<noteq> ident c" by simp
      with Cons tc f show ?thesis by simp
    qed
  next
    case False
    with Cons.prems have c: "c \<in> set ts" by auto
    from Cons.prems have "distinct (map ident ts)" by simp
    from Cons.IH [OF this c] have ih: "insert_before c
           (case dropWhile (\<lambda>s. ident s \<noteq> ident c) ts of
              _ # s # _ \<Rightarrow> Some (ident s) | _ \<Rightarrow> None)
           (filter (\<lambda>x. ident x \<noteq> ident c) ts) = ts" .
    let ?r = "case dropWhile (\<lambda>s. ident s \<noteq> ident c) ts of
              _ # s # _ \<Rightarrow> Some (ident s) | _ \<Rightarrow> None"
    have "?r \<noteq> Some (ident t)"
    proof
      assume "?r = Some (ident t)"
      then obtain a s r where "dropWhile (\<lambda>s. ident s \<noteq> ident c) ts = a # s # r" "ident s = ident t"
        by (auto split: list.splits)
      then have "s \<in> set ts" by (metis list.set_intros(1,2) set_dropWhileD)
      with \<open>ident s = ident t\<close> Cons.prems(1) show False by (auto simp: image_iff)
    qed
    with ih False show ?thesis by (cases ?r) auto
  qed
qed

lemma graft_prune_restores:
  "distinct (ids t) \<Longrightarrow> chain_in n t = c # P # up \<Longrightarrow>
   graft (ident P) c
     (case dropWhile (\<lambda>s. ident s \<noteq> n) (childNodes P) of
        _ # s # _ \<Rightarrow> Some (ident s) | _ \<Rightarrow> None)
     (prune n t) = t"
  "distinct (ids_list F) \<Longrightarrow> chain F n = c # P # up \<Longrightarrow>
   graft_list (ident P) c
     (case dropWhile (\<lambda>s. ident s \<noteq> n) (childNodes P) of
        _ # s # _ \<Rightarrow> Some (ident s) | _ \<Rightarrow> None)
     (prune_list n F) = F"
proof (induction n t and F n arbitrary: c P up and c P up rule: chain_in_chain.induct)
  case (1 n i k ks)
  let ?s = "case dropWhile (\<lambda>s. ident s \<noteq> n) (childNodes P) of
              _ # s # _ \<Rightarrow> Some (ident s) | _ \<Rightarrow> None"
  from "1.prems"(1) have dks: "distinct (ids_list ks)" and iks: "i \<notin> set (ids_list ks)" by simp_all
  show ?case
  proof (cases rule: chain_cases [of n i k ks])
    case here
    with "1.prems" show ?thesis by simp
  next
    case absent
    with "1.prems" show ?thesis by simp
  next
    case below
    with "1.prems"(2) have eq: "chain ks n @ [DNode i k ks] = c # P # up" by simp
    show ?thesis
    proof (cases up rule: rev_cases)
      case Nil
      with eq have ch: "chain ks n = [c]" and P: "P = DNode i k ks"
        by (auto simp: append_eq_Cons_conv)
      from chain_ident(2) [OF ch] have n: "ident c = n" .
      from chain_last(2) [of ks n "[]" c] ch have cks: "c \<in> set ks" by simp
      from prune_list_top [OF dks cks] n
      have pr: "prune_list n ks = filter (\<lambda>x. ident x \<noteq> ident c) ks" by simp
      from insert_before_restores [OF distinct_kids [OF dks] cks] n P
      have "insert_before c ?s (filter (\<lambda>x. ident x \<noteq> ident c) ks) = ks" by simp
      with pr P show ?thesis by simp
    next
      case (snoc up' x)
      with eq have ch: "chain ks n = c # P # up'" by (auto simp: append_eq_Cons_conv)
      from "1.IH" [OF below(2) dks ch] have ih: "graft_list (ident P) c ?s (prune_list n ks) = ks" .
      from ch have "P \<in> set (chain ks n)" by simp
      from chain_ids(2) [OF this] ident_in_ids [of P] have "ident P \<in> set (ids_list ks)" by blast
      with iks have "i \<noteq> ident P" by auto
      with ih show ?thesis by simp
    qed
  qed
next
  case (2 n)
  then show ?case by simp
next
  case (3 t ts n)
  let ?s = "case dropWhile (\<lambda>s. ident s \<noteq> n) (childNodes P) of
              _ # s # _ \<Rightarrow> Some (ident s) | _ \<Rightarrow> None"
  from "3.prems"(1) have dt: "distinct (ids t)" and dts: "distinct (ids_list ts)"
    and disj: "set (ids t) \<inter> set (ids_list ts) = {}" by simp_all
  show ?case
  proof (cases "chain_in n t = []")
    case True
    with "3.prems" have ch: "chain ts n = c # P # up" by (simp add: chain_Cons)
    from "3.IH"(2) True dts ch have ih: "graft_list (ident P) c ?s (prune_list n ts) = ts"
      by (simp add: neq_Nil_conv)
    from True have nt: "n \<notin> set (ids t)" by (simp add: chain_empty_iff)
    then have "ident t \<noteq> n" by (cases t) auto
    moreover from nt have "prune n t = t" by (cases t) (simp add: prune_absent)
    moreover from ch have "P \<in> set (chain ts n)" by simp
    from chain_ids(2) [OF this] disj ident_in_ids [of P] have "ident P \<notin> set (ids t)" by blast
    then have "graft (ident P) c ?s t = t" by (rule graft_absent)
    ultimately show ?thesis using ih by simp
  next
    case False
    with "3.prems" have ch: "chain_in n t = c # P # up" by (simp add: chain_Cons)
    from "3.IH"(1) [OF dt ch] have ih: "graft (ident P) c ?s (prune n t) = t" .
    have "ident t \<noteq> n"
    proof
      assume "ident t = n"
      then have "chain_in n t = [t]" by (cases t) (simp add: chain_in_simps)
      with ch show False by simp
    qed
    moreover from False have "n \<in> set (ids t)" by (simp add: chain_empty_iff)
    with disj have "prune_list n ts = ts" by (auto intro: prune_absent)
    moreover from ch have "P \<in> set (chain_in n t)" by simp
    from chain_ids(1) [OF this] disj ident_in_ids [of P] have "ident P \<notin> set (ids_list ts)" by blast
    then have "graft_list (ident P) c ?s ts = ts" by (rule graft_absent)
    ultimately show ?thesis using ih by simp
  qed
qed

lemma prune_insert_before:
  "n = ident c \<Longrightarrow> n \<notin> set (ids_list ks) \<Longrightarrow> prune_list n (insert_before c r ks) = ks"
proof (induction c r ks rule: insert_before.induct)
  case (1 s ks)
  then show ?case
  proof (induction ks)
    case Nil
    then show ?case by simp
  next
    case (Cons a ks)
    then have "ident a \<noteq> ident s" "prune (ident s) a = a"
      by (cases a; auto simp: prune_absent)+
    with Cons show ?case by simp
  qed
next
  case (2 s r)
  then show ?case by simp
next
  case (3 s r k ks)
  then have k: "ident k \<noteq> ident s" "prune (ident s) k = k"
    by (cases k; auto simp: prune_absent)+
  from "3.prems" have "prune_list (ident s) ks = ks" by (auto intro: prune_absent)
  with 3 k show ?case by simp
qed

lemma prune_graft_restores:
  "n = ident c \<Longrightarrow> n \<notin> set (ids t) \<Longrightarrow> prune n (graft p c r t) = t"
  "n = ident c \<Longrightarrow> n \<notin> set (ids_list ts) \<Longrightarrow> prune_list n (graft_list p c r ts) = ts"
proof (induction p c r t and p c r ts rule: graft_graft_list.induct)
  case (1 t s r i k ks)
  then show ?case by (auto simp: prune_insert_before)
next
  case (2 t s r)
  then show ?case by simp
next
  case (3 t s r c cs)
  then have "ident c \<noteq> n" by (cases c) auto
  with 3 show ?case by simp
qed

lemma insort_filter_restores:
  "sorted (map ident F) \<Longrightarrow> distinct (map ident F) \<Longrightarrow> c \<in> set F \<Longrightarrow>
   insort_key ident c (filter (\<lambda>x. ident x \<noteq> ident c) F) = F"
proof (induction F)
  case Nil
  then show ?case by simp
next
  case (Cons t ts)
  show ?case
  proof (cases "ident t = ident c")
    case True
    with Cons.prems have tc: "t = c" by (auto simp: image_iff)
    from Cons.prems tc have "ident c \<notin> ident ` set ts" by simp
    then have "\<forall>x \<in> set ts. ident x \<noteq> ident c" by (metis imageI)
    then have f: "filter (\<lambda>x. ident x \<noteq> ident c) ts = ts" by (auto intro: filter_True)
    from Cons.prems(1) tc have "\<forall>x \<in> set ts. ident c \<le> ident x" by simp
    then have "insort_key ident c ts = c # ts" by (cases ts) auto
    with f tc show ?thesis by simp
  next
    case False
    with Cons.prems have c: "c \<in> set ts" by auto
    with Cons.prems(1) have "ident t \<le> ident c" by simp
    with False have "\<not> ident c \<le> ident t" by simp
    with Cons c False show ?thesis by simp
  qed
qed

section \<open>Well-formed stores\<close>

lemma nodeType_kind: "kind a = kind b \<Longrightarrow> nodeType a = nodeType b"
  by (cases a rule: nodeType.cases; cases b rule: nodeType.cases) auto

lemma nodes_ident_in_ids:
  "y \<in> set (nodes t) \<Longrightarrow> ident y \<in> set (ids t)"
  "y \<in> set (nodes_list ts) \<Longrightarrow> ident y \<in> set (ids_list ts)"
  by (induction t and ts rule: nodes_nodes_list.induct) auto

lemma node_chain:
  "distinct (ids t) \<Longrightarrow> y \<in> set (nodes t) \<Longrightarrow> \<exists>up. chain_in (ident y) t = y # up"
  "distinct (ids_list ts) \<Longrightarrow> y \<in> set (nodes_list ts) \<Longrightarrow> \<exists>up. chain ts (ident y) = y # up"
proof (induction t and ts rule: nodes_nodes_list.induct)
  case (1 i k ks)
  show ?case
  proof (cases "y = DNode i k ks")
    case True
    then show ?thesis by (simp add: chain_in_simps)
  next
    case False
    with "1.prems" have y: "y \<in> set (nodes_list ks)" by simp
    from "1.prems" have d: "distinct (ids_list ks)" by simp
    from "1.IH" [OF d y] obtain up where up: "chain ks (ident y) = y # up" by blast
    from nodes_ident_in_ids(2) [OF y] "1.prems"(1) have "i \<noteq> ident y" by auto
    with up show ?thesis by (simp add: chain_in_simps)
  qed
next
  case 2
  then show ?case by simp
next
  case (3 t ts)
  show ?case
  proof (cases "y \<in> set (nodes t)")
    case True
    from "3.prems" have "distinct (ids t)" by simp
    from "3.IH"(1) [OF this True] obtain up where "chain_in (ident y) t = y # up" by blast
    then show ?thesis by (simp add: chain_Cons)
  next
    case False
    with "3.prems" have y: "y \<in> set (nodes_list ts)" by simp
    from "3.prems" have d: "distinct (ids_list ts)" by simp
    from "3.IH"(2) [OF d y] obtain up where up: "chain ts (ident y) = y # up" by blast
    from nodes_ident_in_ids(2) [OF y] "3.prems"(1) have "ident y \<notin> set (ids t)" by auto
    then have "chain_in (ident y) t = []" by (simp add: chain_empty_iff)
    with up show ?thesis by (simp add: chain_Cons)
  qed
qed

lemma node_lookup:
  "distinct (ids_list F) \<Longrightarrow> y \<in> set (nodes_list F) \<Longrightarrow> lookup F (ident y) = Some y"
  using node_chain(2) [of F y] by (auto simp: lookup_def)

lemma lookup_chain: "lookup F n = Some c \<Longrightarrow> \<exists>up. chain F n = c # up"
  by (auto simp: lookup_def split: list.splits)

lemma lookup_node: "lookup F n = Some c \<Longrightarrow> c \<in> set (nodes_list F)"
  using lookup_chain [of F n c] chain_nodes(2) [of c F n] by auto

lemma map_ident_prune_list: "map ident (prune_list n F) = filter (\<lambda>i. i \<noteq> n) (map ident F)"
  by (induction F) auto

lemma map_ident_graft_list: "map ident (graft_list p c r F) = map ident F"
  by (induction F) auto

lemma nodes_prune:
  "x \<in> set (nodes (prune n t)) \<Longrightarrow> \<exists>y \<in> set (nodes t). x = prune n y"
  "x \<in> set (nodes_list (prune_list n ts)) \<Longrightarrow> \<exists>y \<in> set (nodes_list ts). x = prune n y"
proof (induction n t and n ts rule: prune_prune_list.induct)
  case (1 n i k ks)
  then show ?case by auto
next
  case (2 n)
  then show ?case by simp
next
  case (3 n t ts)
  then show ?case by (auto split: if_splits)
qed

lemma childNodes_prune: "childNodes (prune n t) = prune_list n (childNodes t)"
  by (cases t) simp

lemma set_prune_list: "x \<in> set (prune_list n ks) \<Longrightarrow> \<exists>y \<in> set ks. x = prune n y"
  by (induction ks) (auto split: if_splits)

lemma node_ok_prune: "node_ok y \<Longrightarrow> node_ok (prune n y)"
proof -
  assume ok: "node_ok y"
  have t: "nodeType (prune n y) = nodeType y" by (rule nodeType_kind) simp
  have "\<forall>x \<in> set (prune_list n (childNodes y)). nodeType x \<noteq> 9"
  proof
    fix x assume "x \<in> set (prune_list n (childNodes y))"
    then obtain z where z: "z \<in> set (childNodes y)" "x = prune n z" using set_prune_list by blast
    have "nodeType (prune n z) = nodeType z" by (rule nodeType_kind) simp
    with z ok show "nodeType x \<noteq> 9" by (auto simp: node_ok_def list_all_iff)
  qed
  moreover have "childNodes y = [] \<Longrightarrow> prune_list n (childNodes y) = []" by simp
  ultimately show ?thesis using ok t
    by (auto simp: node_ok_def list_all_iff childNodes_prune)
qed

lemma nodes_insort: "set (nodes_list (insort_key ident c G)) = set (nodes c) \<union> set (nodes_list G)"
  by (induction G) auto

lemma nodes_chain_subset: "c \<in> set (nodes_list F) \<Longrightarrow> set (nodes c) \<subseteq> set (nodes_list F)"
  using nodes_children(2) [of c F] by (cases c) auto

lemma nextSibling_of_chain:
  "chain F n = c # P # up \<Longrightarrow>
   nextSibling_of F n =
     (case dropWhile (\<lambda>s. ident s \<noteq> n) (childNodes P) of
        _ # s # _ \<Rightarrow> Some (ident s) | _ \<Rightarrow> None)"
  by (simp add: nextSibling_of_def)

lemma nextSibling_is_sibling:
  assumes "chain F n = c # P # up" "nextSibling_of F n = Some s'"
  shows "\<exists>S \<in> set (childNodes P). ident S = s'"
proof -
  from assms obtain a S r where d: "dropWhile (\<lambda>s. ident s \<noteq> n) (childNodes P) = a # S # r"
    and s: "ident S = s'"
    by (auto simp: nextSibling_of_chain split: list.splits)
  from d have "S \<in> set (childNodes P)" by (metis list.set_intros(1,2) set_dropWhileD)
  with s show ?thesis by blast
qed

lemma nextSibling_not_self:
  assumes "distinct (map ident (childNodes P))" "chain F n = c # P # up"
  shows "nextSibling_of F n \<noteq> Some n"
proof
  assume a: "nextSibling_of F n = Some n"
  with assms(2) obtain x S r where d: "dropWhile (\<lambda>s. ident s \<noteq> n) (childNodes P) = x # S # r"
    and s: "ident S = n"
    by (auto simp: nextSibling_of_chain split: list.splits)
  from d have "ident x = n" by (metis (mono_tags, lifting) hd_dropWhile list.sel(1) list.distinct(1))
  from d have "childNodes P = takeWhile (\<lambda>s. ident s \<noteq> n) (childNodes P) @ x # S # r"
    by (metis takeWhile_dropWhile_id)
  then have "map ident (childNodes P)
      = map ident (takeWhile (\<lambda>s. ident s \<noteq> n) (childNodes P)) @ ident x # ident S # map ident r"
    by (metis list.simps(9) map_append)
  with assms(1) \<open>ident x = n\<close> s show False by (metis distinct.simps(2) distinct_append list.set_intros(1))
qed

lemma undo_removal:
  assumes ok: "store_ok F" and ch: "chain F n = c # P # up"
  shows "removeChild F (ident P) n = Inr (detached c (prune_list n F))"
    and "insertBefore (detached c (prune_list n F)) (ident P) n (nextSibling_of F n) = Inr F"
    and "store_ok (detached c (prune_list n F))"
proof -
  let ?G = "prune_list n F" and ?F' = "detached c (prune_list n F)" and ?p = "ident P"
  let ?s = "nextSibling_of F n"
  from ok have dF: "distinct (ids_list F)" and sF: "sorted (map ident F)"
    and nF: "list_all node_ok (nodes_list F)" by (simp_all add: store_ok_def)
  from chain_ident(2) [OF ch] have nc: "ident c = n" .
  from ch have lc: "lookup F n = Some c" and pn: "parentNode_of F n = Some ?p"
    by (simp_all add: lookup_def parentNode_of_def)
  show rm: "removeChild F ?p n = Inr ?F'" by (simp add: removeChild_def lc pn)
  from chain_of_ancestor(2) [OF dF, of n "[c]" P up] ch have chP: "chain F ?p = P # up" by simp
  from chain_distinct_idents(2) [OF dF, of n] ch nc have nn: "n \<notin> ident ` set (P # up)" by auto
  from chain_prune(2) [of n F ?p] chP nn have chG: "chain ?G ?p = map (prune n) (P # up)" by simp
  then have pG: "?p \<in> set (ids_list ?G)" using chain_empty_iff(2) [of ?G ?p] by auto
  from distinct_prune(2) [OF dF] have dG: "distinct (ids_list ?G)" .
  from graft_prune_restores(2) [OF dF ch] have restore: "graft_list ?p c ?s ?G = F"
    by (simp add: nextSibling_of_chain [OF ch])
  from mset_ids_graft(2) [OF dG pG, of c ?s] restore
  have ms: "mset (ids_list F) = mset (ids_list ?G) + mset (ids c)" by simp
  then have "mset (ids_list F) = mset (ids c @ ids_list ?G)" by simp
  with dF have dcG: "distinct (ids c @ ids_list ?G)" by (metis mset_eq_imp_distinct_iff)
  have chF': "chain ?F' m = (if m \<in> set (ids c) then chain_in m c else chain ?G m)" for m
    unfolding detached_def by (rule chain_insort [OF dcG])
  from dcG pG have pc: "?p \<notin> set (ids c)" by auto
  with chF' [of ?p] chG have chF'p: "chain ?F' ?p = map (prune n) (P # up)" by simp
  have chF'n: "chain ?F' n = [c]"
    using chF' [of n] nc by (cases c) (auto simp: chain_in_simps)
  from chain_linked(2) [of F n "[]" c P up] ch have cP: "c \<in> set (childNodes P)" by simp
  from ch have "P \<in> set (chain F n)" by simp
  from chain_nodes(2) [OF this] have PF: "P \<in> set (nodes_list F)" .
  with nF have okP: "node_ok P" by (simp add: list_all_iff)
  with cP have tP: "nodeType P = 1 \<or> nodeType P = 9" and tc: "nodeType c \<noteq> 9"
    by (auto simp: node_ok_def list_all_iff)
  have tP': "nodeType (prune n P) = nodeType P" by (rule nodeType_kind) simp
  from nodes_distinct(2) [OF PF dF] have dP: "distinct (ids P)" .
  then have dkP: "distinct (map ident (childNodes P))" by (cases P) (simp add: distinct_kids)
  have refok: "(case ?s of None \<Rightarrow> False | Some x \<Rightarrow> parentNode_of ?F' x \<noteq> Some ?p) = False"
  proof (cases ?s)
    case None
    then show ?thesis by simp
  next
    case (Some s')
    from nextSibling_is_sibling [OF ch Some] obtain S where S: "S \<in> set (childNodes P)" "ident S = s'"
      by blast
    from chain_of_child [OF dF chP S(1)] S(2) have chS: "chain F s' = S # P # up" by simp
    from nextSibling_not_self [OF dkP ch] Some have "s' \<noteq> n" by auto
    with nn S(2) have "n \<notin> ident ` set (chain F s')" by (simp add: chS)
    from chain_prune(2) [OF this] chS have chGs: "chain ?G s' = map (prune n) (S # P # up)" by simp
    then have "s' \<in> set (ids_list ?G)" using chain_empty_iff(2) [of ?G s'] by auto
    with dcG have "s' \<notin> set (ids c)" by auto
    with chF' [of s'] chGs have "parentNode_of ?F' s' = Some ?p" by (simp add: parentNode_of_def)
    with Some show ?thesis by simp
  qed
  have refself: "?s \<noteq> Some n" by (rule nextSibling_not_self [OF dkP ch])
  have prF': "prune_list n ?F' = ?G"
    unfolding detached_def
    by (simp add: prune_insort [OF nc] prune_absent(2) [OF prune_removes(2)])
  have "insertBefore ?F' ?p n ?s = Inr (graft_list ?p c ?s ?G)"
    using tP tP' tc nn refok refself
    by (simp add: insertBefore_def lookup_def chF'p chF'n prF' image_iff)
  with restore show "insertBefore ?F' ?p n ?s = Inr F" by simp
  have "distinct (ids_list ?F')"
    unfolding detached_def using dcG mset_ids_insort [of c ?G]
    by (metis mset_append mset_eq_imp_distinct_iff)
  moreover have "sorted (map ident ?F')"
    unfolding detached_def using sF
    by (simp add: sorted_insort_key map_ident_prune_list sorted_wrt_filter)
  moreover have "list_all node_ok (nodes_list ?F')"
  proof -
    have "node_ok x" if "x \<in> set (nodes_list ?F')" for x
    proof -
      from that have "x \<in> set (nodes c) \<or> x \<in> set (nodes_list ?G)"
        by (simp add: detached_def nodes_insort)
      then show ?thesis
      proof
        assume "x \<in> set (nodes c)"
        with nodes_chain_subset [OF lookup_node [OF lc]] nF show ?thesis
          by (auto simp: list_all_iff)
      next
        assume "x \<in> set (nodes_list ?G)"
        from nodes_prune(2) [OF this] obtain y where "y \<in> set (nodes_list F)" "x = prune n y"
          by blast
        with nF show ?thesis by (auto simp: list_all_iff intro: node_ok_prune)
      qed
    qed
    then show ?thesis by (simp add: list_all_iff)
  qed
  ultimately show "store_ok ?F'" by (simp add: store_ok_def)
qed

lemma nodes_list_append [simp]: "nodes_list (xs @ ys) = nodes_list xs @ nodes_list ys"
  by (induction xs) auto

lemma nodes_insert_before:
  "set (nodes_list (insert_before s r ks)) = set (nodes s) \<union> set (nodes_list ks)"
  by (induction s r ks rule: insert_before.induct) auto

lemma childNodes_graft_other:
  "ident t \<noteq> p \<Longrightarrow> childNodes (graft p c r t) = graft_list p c r (childNodes t)"
  by (cases t) simp

lemma set_graft_list: "x \<in> set (graft_list p c r ks) \<Longrightarrow> \<exists>y \<in> set ks. x = graft p c r y"
  by (induction ks) auto

lemma node_ok_graft:
  "list_all node_ok (nodes c) \<Longrightarrow> nodeType c \<noteq> 9 \<Longrightarrow> list_all node_ok (nodes t) \<Longrightarrow>
   (\<forall>y \<in> set (nodes t). ident y = p \<longrightarrow> nodeType y = 1 \<or> nodeType y = 9) \<Longrightarrow>
   list_all node_ok (nodes (graft p c r t))"
  "list_all node_ok (nodes c) \<Longrightarrow> nodeType c \<noteq> 9 \<Longrightarrow> list_all node_ok (nodes_list ts) \<Longrightarrow>
   (\<forall>y \<in> set (nodes_list ts). ident y = p \<longrightarrow> nodeType y = 1 \<or> nodeType y = 9) \<Longrightarrow>
   list_all node_ok (nodes_list (graft_list p c r ts))"
proof (induction p c r t and p c r ts rule: graft_graft_list.induct)
  case (1 t s r i k ks)
  let ?n = "DNode i k ks"
  from "1.prems"(3) have okn: "node_ok ?n" and okks: "list_all node_ok (nodes_list ks)" by simp_all
  show ?case
  proof (cases "i = t")
    case True
    with "1.prems"(4) have ty: "nodeType ?n = 1 \<or> nodeType ?n = 9" by simp
    have ty': "nodeType (DNode i k (insert_before s r ks)) = nodeType ?n"
      by (rule nodeType_kind) simp
    from okn "1.prems"(2) have "list_all (\<lambda>c. nodeType c \<noteq> 9) (insert_before s r ks)"
      by (auto simp: node_ok_def list_all_iff set_insert_before)
    with ty ty' have "node_ok (DNode i k (insert_before s r ks))" by (auto simp: node_ok_def)
    moreover have "list_all node_ok (nodes_list (insert_before s r ks))"
      using okks "1.prems"(1) by (auto simp: list_all_iff nodes_insert_before)
    ultimately show ?thesis using True by simp
  next
    case False
    from "1.prems"(4) have "\<forall>y \<in> set (nodes_list ks). ident y = t \<longrightarrow> nodeType y = 1 \<or> nodeType y = 9"
      by simp
    from "1.IH" [OF False "1.prems"(1,2) okks this]
    have sub: "list_all node_ok (nodes_list (graft_list t s r ks))" .
    have ty': "nodeType (DNode i k (graft_list t s r ks)) = nodeType ?n"
      by (rule nodeType_kind) simp
    have "\<forall>x \<in> set (graft_list t s r ks). nodeType x \<noteq> 9"
    proof
      fix x assume "x \<in> set (graft_list t s r ks)"
      then obtain y where y: "y \<in> set ks" "x = graft t s r y" using set_graft_list by blast
      have "nodeType (graft t s r y) = nodeType y" by (rule nodeType_kind) simp
      with y okn show "nodeType x \<noteq> 9" by (auto simp: node_ok_def list_all_iff)
    qed
    moreover have "ks = [] \<Longrightarrow> graft_list t s r ks = []" by simp
    ultimately have "node_ok (DNode i k (graft_list t s r ks))"
      using okn ty' by (auto simp: node_ok_def list_all_iff)
    with sub False show ?thesis by simp
  qed
next
  case (2 t s r)
  then show ?case by simp
next
  case (3 t s r c cs)
  then show ?case by simp
qed

lemma undo_insertion:
  assumes ok: "store_ok F" and par: "parentNode_of F n = None"
    and ins: "insertBefore F p n ref = Inr F'"
  shows "\<exists>c. lookup F n = Some c \<and> lookup F' n = Some c"
    and "parentNode_of F' n = Some p"
    and "removeChild F' p n = Inr F"
    and "store_ok F'"
proof -
  from ok have dF: "distinct (ids_list F)" and sF: "sorted (map ident F)"
    and nF: "list_all node_ok (nodes_list F)" by (simp_all add: store_ok_def)
  from ins obtain P c where lP: "lookup F p = Some P" and lc: "lookup F n = Some c"
    by (auto simp: insertBefore_def split: option.splits)
  from ins lP lc have tP: "nodeType P = 1 \<or> nodeType P = 9"
    and cyc: "n \<notin> set (map ident (chain F p))"
    and refc: "(case ref of None \<Rightarrow> False | Some x \<Rightarrow> parentNode_of F x \<noteq> Some p) = False"
    and tc: "nodeType c \<noteq> 9"
    by (auto simp: insertBefore_def split: if_splits)
  from refc par have rn: "ref \<noteq> Some n" by (auto split: option.splits)
  let ?G = "prune_list n F"
  from ins lP lc tP cyc refc tc rn have F': "F' = graft_list p c ref ?G"
    by (auto simp: insertBefore_def split: if_splits)
  from lookup_chain [OF lc] obtain up where "chain F n = c # up" by blast
  with par have chn: "chain F n = [c]" by (cases up) (simp_all add: parentNode_of_def)
  from chain_ident(2) [OF chn] have nc: "ident c = n" .
  from chain_last(2) [of F n "[]" c] chn have cF: "c \<in> set F" by simp
  from prune_list_top [OF dF cF] nc have G: "?G = filter (\<lambda>x. ident x \<noteq> ident c) F" by simp
  from insort_filter_restores [OF sF distinct_kids [OF dF] cF] G
  have FG: "insort_key ident c ?G = F" by simp
  from mset_ids_insort [of c ?G] FG have "mset (ids_list F) = mset (ids c @ ids_list ?G)" by simp
  with dF have dcG: "distinct (ids c @ ids_list ?G)" by (metis mset_eq_imp_distinct_iff)
  then have dG: "distinct (ids_list ?G)" by simp
  from lookup_chain [OF lP] obtain upP where chP: "chain F p = P # upP" by blast
  from lookup_ident [OF lP] have iP: "ident P = p" .
  have pc: "p \<notin> set (ids c)"
  proof
    assume "p \<in> set (ids c)"
    from chain_through(2) [OF dF chn this] have e: "chain F p = chain_in p c" by simp
    with chP obtain cs x where "chain_in p c = cs @ [x]"
      by (cases "chain_in p c" rule: rev_cases) auto
    with chain_last(1) [OF this] e have "c \<in> set (chain F p)" by simp
    with nc cyc show False by auto
  qed
  have chF: "chain F m = (if m \<in> set (ids c) then chain_in m c else chain ?G m)" for m
    using chain_insort [OF dcG, of m] FG by simp
  with pc chP have chGp: "chain ?G p = P # upP" by simp
  then have pG: "p \<in> set (ids_list ?G)" using chain_empty_iff(2) [of ?G p] by auto
  from dcG have disj: "set (ids c) \<inter> set (ids_list ?G) = {}" by auto
  have nic: "n \<in> set (ids c)" using nc ident_in_ids [of c] by simp
  from chain_graft_new(2) [OF dG pG nic disj, of ref] F' chGp
  have chF'n: "chain F' n = chain_in n c @ map (graft p c ref) (P # upP)" by simp
  have cn: "chain_in n c = [c]" using nc by (cases c) (auto simp: chain_in_simps)
  from chF'n cn iP show pn': "parentNode_of F' n = Some p" by (simp add: parentNode_of_def)
  from chF'n cn have lc': "lookup F' n = Some c" by (simp add: lookup_def)
  with lc show "\<exists>c. lookup F n = Some c \<and> lookup F' n = Some c" by simp
  have "prune_list n F' = ?G"
    unfolding F' by (rule prune_graft_restores(2) [OF nc [symmetric] prune_removes(2)])
  with lc' pn' FG show "removeChild F' p n = Inr F"
    by (simp add: removeChild_def detached_def)
  from mset_ids_graft(2) [OF dG pG, of c ref] F'
  have "mset (ids_list F') = mset (ids_list ?G @ ids c)" by simp
  with dcG have "distinct (ids_list F')"
    by (metis distinct_append mset_eq_imp_distinct_iff inf_commute)
  moreover have "sorted (map ident F')"
    unfolding F' using sF by (simp add: map_ident_graft_list map_ident_prune_list sorted_wrt_filter)
  moreover have "list_all node_ok (nodes_list F')"
    unfolding F'
  proof (rule node_ok_graft(2))
    from nodes_chain_subset [OF lookup_node [OF lc]] nF show "list_all node_ok (nodes c)"
      by (auto simp: list_all_iff)
    show "nodeType c \<noteq> 9" by (rule tc)
    show "list_all node_ok (nodes_list ?G)"
    proof -
      have "node_ok x" if "x \<in> set (nodes_list ?G)" for x
      proof -
        from nodes_prune(2) [OF that] obtain y where "y \<in> set (nodes_list F)" "x = prune n y"
          by blast
        with nF show ?thesis by (auto simp: list_all_iff intro: node_ok_prune)
      qed
      then show ?thesis by (simp add: list_all_iff)
    qed
    show "\<forall>y \<in> set (nodes_list ?G). ident y = p \<longrightarrow> nodeType y = 1 \<or> nodeType y = 9"
    proof (intro ballI impI)
      fix y assume y: "y \<in> set (nodes_list ?G)" "ident y = p"
      from node_lookup [OF dG y(1)] y(2) have "lookup ?G p = Some y" by simp
      with chGp have "y = P" by (simp add: lookup_def)
      with tP show "nodeType y = 1 \<or> nodeType y = 9" by simp
    qed
  qed
  ultimately show "store_ok F'" by (simp add: store_ok_def)
qed

section \<open>The same tree with other text\<close>

lemma retext_list_map: "retext_list e ks = map (retext e) ks"
  by (induction ks) auto

lemma retext_ident [simp]: "ident (retext e t) = ident t"
  by (cases t) simp

lemma childNodes_retext [simp]: "childNodes (retext e t) = retext_list e (childNodes t)"
  by (cases t) simp

lemma retext_props [simp]:
  "nodeType (retext e t) = nodeType t"
  "nodeName (retext e t) = nodeName t"
  "id_of (retext e t) = id_of t"
  "className (retext e t) = className t"
  "tagName (retext e t) = tagName t"
  by (cases t rule: nodeType.cases; simp)+

lemma has_id_retext [simp]: "has_id (retext e t) = has_id t"
  by (simp add: has_id_def)

lemma id_string_retext [simp]: "id_string (retext e t) = id_string t"
  by (simp add: id_string_def)

lemma ids_retext [simp]:
  "ids (retext e t) = ids t"
  "ids_list (retext_list e ts) = ids_list ts"
  by (induction e t and e ts rule: retext_retext_list.induct) auto

lemma chain_retext:
  "chain_in m (retext e t) = map (retext e) (chain_in m t)"
  "chain (retext_list e F) m = map (retext e) (chain F m)"
proof (induction m t and F m rule: chain_in_chain.induct)
  case (1 m i k ks)
  show ?case
  proof (cases rule: chain_cases [of m i k ks])
    case here
    then show ?thesis by (simp add: chain_in_simps)
  next
    case absent
    with 1 show ?thesis by (simp add: chain_in_simps)
  next
    case below
    with 1 show ?thesis by (simp add: chain_in_simps)
  qed
next
  case (2 m)
  then show ?case by simp
next
  case (3 t ts m)
  then show ?case by (cases "chain_in m t = []") (simp_all add: chain_Cons)
qed

lemma lookup_retext: "lookup (retext_list e F) m = map_option (retext e) (lookup F m)"
  by (simp add: lookup_def chain_retext split: list.splits)

lemma parentNode_of_retext [simp]: "parentNode_of (retext_list e F) m = parentNode_of F m"
  by (simp add: parentNode_of_def chain_retext split: list.splits)

lemma dropWhile_retext:
  "dropWhile (\<lambda>s. ident s \<noteq> n) (map (retext e) ks) = map (retext e) (dropWhile (\<lambda>s. ident s \<noteq> n) ks)"
  by (induction ks) auto

lemma takeWhile_retext:
  "takeWhile (\<lambda>s. ident s \<noteq> n) (map (retext e) ks) = map (retext e) (takeWhile (\<lambda>s. ident s \<noteq> n) ks)"
  by (induction ks) auto

lemma second_ident_retext:
  "(case map (retext e) xs of [] \<Rightarrow> None | [x] \<Rightarrow> None | x # s # _ \<Rightarrow> Some (ident s)) =
   (case xs of [] \<Rightarrow> None | [x] \<Rightarrow> None | x # s # _ \<Rightarrow> Some (ident s))"
  by (cases xs rule: remdups_adj.cases) auto

lemma nextSibling_of_retext [simp]: "nextSibling_of (retext_list e F) m = nextSibling_of F m"
  by (cases "chain F m" rule: remdups_adj.cases)
     (simp_all add: nextSibling_of_def chain_retext [unfolded retext_list_map]
        retext_list_map dropWhile_retext second_ident_retext)

lemma prune_retext:
  "prune n (retext e t) = retext e (prune n t)"
  "prune_list n (retext_list e ts) = retext_list e (prune_list n ts)"
  by (induction n t and n ts rule: prune_prune_list.induct) auto

lemma insert_before_retext:
  "insert_before (retext e c) r (retext_list e ks) = retext_list e (insert_before c r ks)"
  by (induction c r ks rule: insert_before.induct) (auto simp: retext_list_map)

lemma graft_retext:
  "graft p (retext e c) r (retext e t) = retext e (graft p c r t)"
  "graft_list p (retext e c) r (retext_list e ts) = retext_list e (graft_list p c r ts)"
  by (induction p c r t and p c r ts rule: graft_graft_list.induct)
     (auto simp: insert_before_retext)

lemma insort_retext:
  "insort_key ident (retext e c) (retext_list e G) = retext_list e (insort_key ident c G)"
  by (induction G) auto

lemma with_data_twice [simp]: "with_data a (with_data b k) = with_data a k"
  by (cases k) auto

lemma retext_replace_data:
  "retext e (replace_data n s t) = retext e t"
  "retext_list e (replace_data_list n s ts) = retext_list e ts"
  by (induction n s t and n s ts rule: replace_data_replace_data_list.induct) auto

lemma removeChild_retext:
  "removeChild F p n = Inr F' \<Longrightarrow> removeChild (retext_list e F) p n = Inr (retext_list e F')"
  by (auto simp: removeChild_def lookup_retext detached_def prune_retext insort_retext
      split: option.splits if_splits)

lemma insertBefore_retext:
  "insertBefore F p n ref = Inr F' \<Longrightarrow>
   insertBefore (retext_list e F) p n ref = Inr (retext_list e F')"
  by (auto simp: insertBefore_def lookup_retext chain_retext image_iff prune_retext graft_retext
      split: option.splits if_splits)

lemma count_text_siblings_retext:
  "count_text_siblings (map (retext e) xs) k = count_text_siblings xs k"
  by (induction xs arbitrary: k) auto

lemma count_same_name_retext:
  "count_same_name (retext e nd) (map (retext e) ks) c = count_same_name nd ks c"
  by (induction ks arbitrary: c) auto

lemma previousSiblings_retext:
  "previousSiblings (retext e nd) (map (retext e) up) = map (retext e) (previousSiblings nd up)"
  by (cases up) (simp_all add: previousSiblings_def retext_list_map takeWhile_retext rev_map)

lemma getXPathFromChain_retext:
  "getXPathFromChain (retext e w) (map (retext e) ch) = getXPathFromChain w ch"
proof (induction ch)
  case Nil
  then show ?case by simp
next
  case (Cons nd up)
  show ?case
  proof (cases up)
    case Nil
    then show ?thesis
      using previousSiblings_retext [of e nd "[]"]
      by (simp add: getXPathFromChain.simps(2) [of _ _ "[]"] count_text_siblings_retext)
  next
    case (Cons parent rest)
    with Cons.IH previousSiblings_retext [of e nd up]
    show ?thesis
      by (simp add: getXPathFromChain.simps(2) [of w nd] 
          getXPathFromChain.simps(2) [of "retext e w" "retext e nd"]
          count_text_siblings_retext
          count_same_name_retext [of e nd, unfolded retext_props] retext_list_map
          split: option.splits)
  qed
qed

lemma getXPathFromNode_retext [simp]:
  "getXPathFromNode (retext_list e F) w n = getXPathFromNode F w n"
  by (auto simp: getXPathFromNode_def lookup_retext chain_retext getXPathFromChain_retext
      split: option.splits)

section \<open>Rolling the edits back\<close>

lemma nodes_retext:
  "nodes (retext e t) = map (retext e) (nodes t)"
  "nodes_list (retext_list e ts) = map (retext e) (nodes_list ts)"
  by (induction e t and e ts rule: retext_retext_list.induct) auto

lemma node_ok_retext [simp]: "node_ok (retext e t) = node_ok t"
  by (auto simp: node_ok_def retext_list_map list_all_iff)

lemma store_ok_retext: "store_ok F \<Longrightarrow> store_ok (retext_list e F)"
  by (auto simp: store_ok_def nodes_retext list_all_iff)
     (simp add: retext_list_map comp_def)

lemma retext_same:
  "(\<forall>y \<in> set (nodes t). with_data (e (ident y)) (kind y) = kind y) \<Longrightarrow> retext e t = t"
  "(\<forall>y \<in> set (nodes_list ts). with_data (e (ident y)) (kind y) = kind y) \<Longrightarrow>
   retext_list e ts = ts"
  by (induction e t and e ts rule: retext_retext_list.induct) auto

lemma with_data_own: "with_data (case data_of y of None \<Rightarrow> [] | Some d \<Rightarrow> d) (kind y) = kind y"
  by (cases y rule: data_of.cases) auto

lemma retext_data_in: "distinct (ids_list F) \<Longrightarrow> retext_list (data_in F) F = F"
  by (rule retext_same(2)) (auto simp: data_in_def node_lookup with_data_own)

lemma insert_nodes_retext:
  "insert_nodes F p ns a = Some F' \<Longrightarrow>
   insert_nodes (retext_list e F) p ns a = Some (retext_list e F')"
proof (induction ns arbitrary: F)
  case Nil
  then show ?case by simp
next
  case (Cons n ns)
  from Cons.prems obtain Fa where par: "parentNode_of F n = None"
    and ins: "insertBefore F p n a = Inr Fa" and rest: "insert_nodes Fa p ns a = Some F'"
    by (auto split: if_splits sum.splits)
  from par insertBefore_retext [OF ins, of e] Cons.IH [OF rest] show ?case by simp
qed

lemma remove_nodes_retext:
  "remove_nodes F p rs ref = Some F' \<Longrightarrow>
   remove_nodes (retext_list e F) p rs ref = Some (retext_list e F')"
proof (induction rs arbitrary: F)
  case Nil
  then show ?case by simp
next
  case (Cons r rs)
  from Cons.prems obtain Fa where par: "parentNode_of F r = Some p"
    and nx: "nextSibling_of F r = (case rs of [] \<Rightarrow> ref | r' # _ \<Rightarrow> Some r')"
    and rem: "removeChild F p r = Inr Fa" and rest: "remove_nodes Fa p rs ref = Some F'"
    by (auto split: if_splits sum.splits)
  from par nx removeChild_retext [OF rem, of e] Cons.IH [OF rest] show ?case by simp
qed

lemma mutate_retext:
  assumes "mutate F m = Some (F1, r)"
  shows "(\<exists>n d. m = SetData n d \<and> retext_list e F1 = retext_list e F
            \<and> mtype r = characterData \<and> oldValue r \<noteq> None
            \<and> removedNodes r = [] \<and> addedNodes r = [])
         \<or> ((\<forall>n d. m \<noteq> SetData n d) \<and> mutate (retext_list e F) m = Some (retext_list e F1, r))"
proof (cases m)
  case (SetData n d)
  with assms show ?thesis
    by (auto simp: retext_replace_data split: option.splits)
next
  case (RemoveNode n)
  with assms show ?thesis
    by (auto simp: removeChild_retext split: option.splits sum.splits)
next
  case (InsertNode p n ref)
  with assms show ?thesis
    by (auto simp: insertBefore_retext split: option.splits sum.splits if_splits)
next
  case (ReplaceNodes p rs ns ref)
  with assms obtain Fm where ne: "\<not> (rs = [] \<and> ns = [])"
    and ins: "insert_nodes F p ns (case rs of [] \<Rightarrow> ref | r # _ \<Rightarrow> Some r) = Some Fm"
    and rem: "remove_nodes Fm p rs ref = Some F1"
    and r: "r = \<lparr>mtype = childList, target = p, addedNodes = ns, removedNodes = rs,
                 nextSibling = ref, oldValue = None\<rparr>"
    by (auto split: option.splits if_splits)
  from ne insert_nodes_retext [OF ins, of e] remove_nodes_retext [OF rem, of e] r ReplaceNodes
  show ?thesis by simp
qed

lemma parentNode_of_chain:
  "parentNode_of F n = Some p \<Longrightarrow> \<exists>c P up. chain F n = c # P # up \<and> ident P = p"
  by (auto simp: parentNode_of_def split: list.splits)

lemma rollback_added_append:
  "rollback_added F w r (xs @ ys) ops =
     (case rollback_added F w r xs ops of
        Inl e \<Rightarrow> Inl e
      | Inr (F', ops') \<Rightarrow> rollback_added F' w r ys ops')"
  by (induction xs arbitrary: F ops) (auto split: sum.splits option.splits)

lemma insert_nodes_undo:
  assumes "store_ok F" and "insert_nodes F p ns a = Some F'" and "target r = p"
  shows "store_ok F'" and "\<exists>ops'. rollback_added F' w r (rev ns) ops = Inr (F, ops')"
proof -
  have "store_ok F' \<and> (\<forall>ops. \<exists>ops'. rollback_added F' w r (rev ns) ops = Inr (F, ops'))"
    using assms(1,2)
  proof (induction ns arbitrary: F)
    case Nil
    then show ?case by simp
  next
    case (Cons n ns)
    from Cons.prems(2) obtain Fa where par: "parentNode_of F n = None"
      and ins: "insertBefore F p n a = Inr Fa" and rest: "insert_nodes Fa p ns a = Some F'"
      by (auto split: if_splits sum.splits)
    from undo_insertion [OF Cons.prems(1) par ins] obtain c where
      c: "lookup F n = Some c" and par1: "parentNode_of Fa n = Some p"
      and undo: "removeChild Fa p n = Inr F" and oka: "store_ok Fa"
      by blast
    from Cons.IH [OF oka rest] have ok': "store_ok F'"
      and ih: "\<And>ops. \<exists>ops'. rollback_added F' w r (rev ns) ops = Inr (Fa, ops')"
      by blast+
    have "\<exists>ops'. rollback_added F' w r (rev (n # ns)) ops = Inr (F, ops')" for ops
    proof -
      from ih [of ops] obtain ops1 where
        "rollback_added F' w r (rev ns) ops = Inr (Fa, ops1)" by blast
      with c par1 undo assms(3) show ?thesis
        by (simp add: rollback_added_append)
    qed
    with ok' show ?case by blast
  qed
  then show "store_ok F'" and "\<exists>ops'. rollback_added F' w r (rev ns) ops = Inr (F, ops')"
    by blast+
qed

lemma undo_record:
  assumes ok: "store_ok G" and mu: "mutate G m = Some (G1, r)"
    and st: "\<forall>n d. m \<noteq> SetData n d" and one: "length (removedNodes r) \<le> 1"
  shows "\<exists>ops'. compile_record G1 w r ops = Inr (G, ops')" and "store_ok G1"
proof -
  have "(\<exists>ops'. compile_record G1 w r ops = Inr (G, ops')) \<and> store_ok G1"
  proof (cases m)
    case (SetData n d)
    with st show ?thesis by simp
  next
    case (RemoveNode n)
    with mu obtain p where p: "parentNode_of G n = Some p"
      and rc: "removeChild G p n = Inr G1"
      and r: "r = \<lparr>mtype = childList, target = p, addedNodes = [], removedNodes = [n],
                   nextSibling = nextSibling_of G n, oldValue = None\<rparr>"
      by (auto split: option.splits sum.splits)
    from parentNode_of_chain [OF p] obtain c P up where
      ch: "chain G n = c # P # up" and P: "ident P = p" by blast
    from undo_removal [OF ok ch] P rc have
      G1: "G1 = detached c (prune_list n G)"
      and undo: "insertBefore G1 p n (nextSibling_of G n) = Inr G"
      and ok1: "store_ok G1"
      by auto
    from undo ok1 show ?thesis
      by (simp add: compile_record_def compile_text_def r)
  next
    case (InsertNode p n ref)
    with mu have par: "parentNode_of G n = None"
      and ins: "insertBefore G p n ref = Inr G1"
      and r: "r = \<lparr>mtype = childList, target = p, addedNodes = [n], removedNodes = [],
                   nextSibling = ref, oldValue = None\<rparr>"
      by (auto split: option.splits sum.splits if_splits)
    from undo_insertion [OF ok par ins] obtain c where
      c: "lookup G n = Some c" and par1: "parentNode_of G1 n = Some p"
      and undo: "removeChild G1 p n = Inr G" and ok1: "store_ok G1"
      by blast
    from c par1 undo ok1 show ?thesis
      by (simp add: compile_record_def compile_text_def r)
  next
    case (ReplaceNodes p rs ns ref)
    with mu obtain Gm where
      ins: "insert_nodes G p ns (case rs of [] \<Rightarrow> ref | r # _ \<Rightarrow> Some r) = Some Gm"
      and rem: "remove_nodes Gm p rs ref = Some G1"
      and r: "r = \<lparr>mtype = childList, target = p, addedNodes = ns, removedNodes = rs,
                   nextSibling = ref, oldValue = None\<rparr>"
      by (auto split: option.splits if_splits)
    from r have t: "target r = p" by simp
    from insert_nodes_undo [OF ok ins t] have okm: "store_ok Gm"
      and added: "\<And>ops. \<exists>ops'. rollback_added Gm w r (rev ns) ops = Inr (G, ops')"
      by blast+
    from one r have "rs = [] \<or> (\<exists>c. rs = [c])"
      by (cases rs) auto
    then show ?thesis
    proof
      assume rs: "rs = []"
      with rem have "G1 = Gm" by simp
      with okm added [of ops] rs show ?thesis
        by (simp add: compile_record_def compile_text_def r)
    next
      assume "\<exists>c. rs = [c]"
      then obtain c where rs: "rs = [c]" by blast
      with rem have par: "parentNode_of Gm c = Some p" and nx: "nextSibling_of Gm c = ref"
        and rc: "removeChild Gm p c = Inr G1"
        by (auto split: if_splits sum.splits)
      from parentNode_of_chain [OF par] obtain c' P up where
        ch: "chain Gm c = c' # P # up" and P: "ident P = p" by blast
      from undo_removal [OF okm ch] P rc nx have
        undo: "insertBefore G1 p c ref = Inr Gm" and ok1: "store_ok G1"
        by auto
      from added obtain ops' where
        "rollback_added Gm w r (rev ns)
           (ops @ [\<lparr>otype = REMOVE, node = XPathStr (getXPathFromNode Gm w c), nodeText = None,
                    parentNode = Some (getXPathFromNode Gm w p), siblingNode = None\<rparr>])
         = Inr (G, ops')"
        by blast
      with undo ok1 rs show ?thesis
        by (simp add: compile_record_def compile_text_def r)
    qed
  qed
  then show "\<exists>ops'. compile_record G1 w r ops = Inr (G, ops')" and "store_ok G1" by blast+
qed

lemma undo_record_retext:
  assumes ok: "store_ok (retext_list e F)" and mu: "mutate F m = Some (F1, r)"
    and one: "length (removedNodes r) \<le> 1"
  shows "\<exists>ops'. compile_record (retext_list e F1) w r ops = Inr (retext_list e F, ops')"
    and "store_ok (retext_list e F1)"
proof -
  from mutate_retext [OF mu, of e]
  have "(\<exists>ops'. compile_record (retext_list e F1) w r ops = Inr (retext_list e F, ops'))
        \<and> store_ok (retext_list e F1)"
  proof
    assume "\<exists>n d. m = SetData n d \<and> retext_list e F1 = retext_list e F
            \<and> mtype r = characterData \<and> oldValue r \<noteq> None
            \<and> removedNodes r = [] \<and> addedNodes r = []"
    with ok show ?thesis by (auto simp: compile_record_text)
  next
    assume "(\<forall>n d. m \<noteq> SetData n d)
            \<and> mutate (retext_list e F) m = Some (retext_list e F1, r)"
    with undo_record(1) [OF ok _ _ one, of m "retext_list e F1" w ops]
      undo_record(2) [OF ok _ _ one, of m "retext_list e F1"] show ?thesis by blast
  qed
  then show "\<exists>ops'. compile_record (retext_list e F1) w r ops = Inr (retext_list e F, ops')"
    and "store_ok (retext_list e F1)" by blast+
qed

lemma mutations_store_ok:
  "store_ok (retext_list e F0) \<Longrightarrow> mutations F0 ms = Some (Fn, recs) \<Longrightarrow>
   \<forall>r \<in> set recs. length (removedNodes r) \<le> 1 \<Longrightarrow>
   store_ok (retext_list e Fn)"
proof (induction ms arbitrary: F0 recs)
  case Nil
  then show ?case by simp
next
  case (Cons m ms)
  from Cons.prems(2) obtain F1 r rs where
    m: "mutate F0 m = Some (F1, r)" and ms: "mutations F1 ms = Some (Fn, rs)"
    and recs: "recs = r # rs"
    by (auto split: option.splits)
  from Cons.prems(3) recs have one: "length (removedNodes r) \<le> 1"
    and rest: "\<forall>r \<in> set rs. length (removedNodes r) \<le> 1" by simp_all
  from Cons.IH [OF undo_record_retext(2) [OF Cons.prems(1) m one] ms rest] show ?case .
qed

lemma set_queue_again [simp]:
  "set_queue ((set_queue s q)\<lparr>liveDOM := X\<rparr>) q' = (set_queue s q')\<lparr>liveDOM := X\<rparr>"
  by (simp add: set_queue_def)

lemma undo_queue:
  "store_ok (retext_list e F0) \<Longrightarrow> mutations F0 ms = Some (Fn, recs) \<Longrightarrow>
   \<forall>r \<in> set recs. length (removedNodes r) \<le> 1 \<Longrightarrow>
   MutationQueue (DaemonState s) = q0 @ recs \<Longrightarrow> liveDOM s = retext_list e Fn \<Longrightarrow>
   \<exists>ops'. compile_queue s ops =
            compile_queue ((set_queue s q0)\<lparr>liveDOM := retext_list e F0\<rparr>) ops'"
proof (induction ms arbitrary: F0 recs q0)
  case Nil
  then have "(set_queue s q0)\<lparr>liveDOM := retext_list e F0\<rparr> = s"
    by (simp add: set_queue_def)
  then show ?case by auto
next
  case (Cons m ms)
  from Cons.prems(2) obtain F1 r rs where
    m: "mutate F0 m = Some (F1, r)" and ms: "mutations F1 ms = Some (Fn, rs)"
    and recs: "recs = r # rs"
    by (auto split: option.splits)
  from Cons.prems(3) recs have one: "length (removedNodes r) \<le> 1"
    and rest: "\<forall>r \<in> set rs. length (removedNodes r) \<le> 1" by simp_all
  from undo_record_retext [OF Cons.prems(1) m one] have ok1: "store_ok (retext_list e F1)"
    by blast
  from Cons.prems(4) recs have q: "MutationQueue (DaemonState s) = (q0 @ [r]) @ rs" by simp
  from Cons.IH [OF ok1 ms rest q Cons.prems(5)] obtain ops1 where
    a: "compile_queue s ops =
          compile_queue ((set_queue s (q0 @ [r]))\<lparr>liveDOM := retext_list e F1\<rparr>) ops1"
    by blast
  from undo_record_retext(1) [OF Cons.prems(1) m one, of "WatchElementRef s" ops1]
  obtain ops2 where
    b: "compile_record (retext_list e F1) (WatchElementRef s) r ops1
          = Inr (retext_list e F0, ops2)"
    by blast
  have "compile_queue ((set_queue s (q0 @ [r]))\<lparr>liveDOM := retext_list e F1\<rparr>) ops1
          = compile_queue ((set_queue s q0)\<lparr>liveDOM := retext_list e F0\<rparr>) ops2"
    by (subst compile_queue_snoc [of _ q0 r]) (simp_all add: b)
  with a show ?case by auto
qed

lemma structural_keeps_text:
  "\<forall>m \<in> set ms. \<not> is_text_edit m \<Longrightarrow> mutations F0 ms = Some (Fn, recs) \<Longrightarrow>
   retext_list e F0 = F0 \<Longrightarrow> retext_list e Fn = Fn"
proof (induction ms arbitrary: F0 recs)
  case Nil
  then show ?case by simp
next
  case (Cons m ms)
  from Cons.prems(2) obtain F1 r rs where
    m: "mutate F0 m = Some (F1, r)" and ms: "mutations F1 ms = Some (Fn, rs)"
    by (auto split: option.splits)
  from Cons.prems(1) have "\<not> is_text_edit m" by simp
  with mutate_retext [OF m, of e] have "mutate (retext_list e F0) m = Some (retext_list e F1, r)"
    by auto
  with m Cons.prems(3) have "retext_list e F1 = F1" by simp
  with Cons.IH [OF _ ms] Cons.prems(1) show ?case by simp
qed

text \<open>
  Claim C1, as stated, fails in two ways.

  \<^item> Text is not rolled back: the line that would restore the old text,
    \<open>mutation.target.textContent = mutation.oldValue\<close>, is commented out. After one keystroke
    in the first paragraph the pass leaves the watched element as the keystroke made it; its
    text is \<open>Hello!B\<close> and was \<open>HelloB\<close> before the edit.
  \<^item> A record that lists several removed nodes is rolled back in the wrong order: the loop
    puts each removed node, the last one first, before the same \<open>nextSibling\<close>. After both
    paragraphs are taken out in one call, the pass leaves the second paragraph before the
    first.
\<close>

theorem C1_text_edit_not_rolled_back:
  "mutations [ex_root] [SetData 2 ''Hello!''] = Some (ex_typed, [ex_first_stroke])
   \<and> MutationQueue (DaemonState ex_one_stroke) = [ex_first_stroke]
   \<and> liveDOM ex_one_stroke = ex_typed
   \<and> compile_queue ex_one_stroke [] = Inr (set_queue ex_one_stroke [], [ex_text_op])
   \<and> liveDOM (set_queue ex_one_stroke []) = ex_typed
   \<and> text_data_list ex_typed = ''Hello!B''
   \<and> text_data ex_root = ''HelloB''
   \<and> mutations [ex_root] [ReplaceNodes 0 [1, 3] [] None]
       = Some (liveDOM ex_cleared, MutationQueue (DaemonState ex_cleared))
   \<and> compile_queue ex_cleared [] =
       Inr ((set_queue ex_cleared [])\<lparr>liveDOM := [ex_swapped]\<rparr>,
            [\<lparr>otype = REMOVE, node = XPathStr ''//body/p[1]'', nodeText = None,
              parentNode = Some ''//body'', siblingNode = None\<rparr>,
             \<lparr>otype = REMOVE, node = XPathStr ''//body/p[2]'', nodeText = None,
              parentNode = Some ''//body'', siblingNode = None\<rparr>])
   \<and> childNodes ex_swapped = rev (childNodes ex_root)"
proof -
  have "mutations [ex_root] [SetData 2 ''Hello!''] = Some (ex_typed, [ex_first_stroke])"
    by code_simp
  moreover have "compile_queue ex_one_stroke [] = Inr (set_queue ex_one_stroke [], [ex_text_op])"
    by code_simp
  moreover have "text_data_list ex_typed = ''Hello!B''" by code_simp
  moreover have "text_data ex_root = ''HelloB''" by code_simp
  moreover have "mutations [ex_root] [ReplaceNodes 0 [1, 3] [] None]
                   = Some (liveDOM ex_cleared, MutationQueue (DaemonState ex_cleared))"
    by code_simp
  moreover have "compile_queue ex_cleared [] =
       Inr ((set_queue ex_cleared [])\<lparr>liveDOM := [ex_swapped]\<rparr>,
            [\<lparr>otype = REMOVE, node = XPathStr ''//body/p[1]'', nodeText = None,
              parentNode = Some ''//body'', siblingNode = None\<rparr>,
             \<lparr>otype = REMOVE, node = XPathStr ''//body/p[2]'', nodeText = None,
              parentNode = Some ''//body'', siblingNode = None\<rparr>])"
    by code_simp
  moreover have "childNodes ex_swapped = rev (childNodes ex_root)"
    by (simp add: ex_swapped_def ex_root_def)
  ultimately show ?thesis by (simp add: ex_one_stroke_def)
qed

text \<open>
  Claim C1, amended (the rollback invariant holds for structure, not for text, and for
  records that list at most one removed node). Take a well-formed store \<open>F0\<close> and a batch
  \<open>ms\<close> of edits (changes of text, removals, insertions of detached nodes, replacements of
  children by detached nodes) that leads to the store \<open>Fn\<close> and leaves the records \<open>recs\<close>,
  none of which lists more than one removed node. The compiler pass of \<open>FlushQueue\<close> over
  these records, started on \<open>Fn\<close>, never fails, empties the queue, and leaves the store \<open>F0\<close>
  with the text of \<open>Fn\<close>: every node is where it was before the batch, and every text or
  comment node has the data it has after the batch. Nothing else changes in this pass, the
  mirror document included (it changes only afterwards, in \<open>SyncToMirror\<close>). When the batch
  has no text edit the store is \<open>F0\<close> exactly.
\<close>

theorem C1_structure_rolled_back_text_kept:
  assumes "store_ok F0" and "mutations F0 ms = Some (Fn, recs)"
    and "\<forall>r \<in> set recs. length (removedNodes r) \<le> 1"
    and "MutationQueue (DaemonState s) = recs" and "liveDOM s = Fn"
  shows "(\<exists>ops. compile_queue s [] =
            Inr ((set_queue s [])\<lparr>liveDOM := retext_list (data_in Fn) F0\<rparr>, ops))
         \<and> ((\<forall>m \<in> set ms. \<not> is_text_edit m) \<longrightarrow> retext_list (data_in Fn) F0 = F0)"
proof -
  let ?e = "data_in Fn"
  from assms(1) have ok: "store_ok (retext_list ?e F0)" by (rule store_ok_retext)
  from mutations_store_ok [OF ok assms(2,3)] have "distinct (ids_list Fn)"
    by (simp add: store_ok_def)
  then have Fn: "retext_list ?e Fn = Fn" by (rule retext_data_in)
  from undo_queue [OF ok assms(2,3), of s "[]" "[]"] assms(4,5) Fn obtain ops where
    "compile_queue s [] = compile_queue ((set_queue s [])\<lparr>liveDOM := retext_list ?e F0\<rparr>) ops"
    by auto
  then have a: "compile_queue s [] = Inr ((set_queue s [])\<lparr>liveDOM := retext_list ?e F0\<rparr>, ops)"
    by (simp add: compile_queue_nil)
  have b: "retext_list ?e F0 = F0" if st: "\<forall>m \<in> set ms. \<not> is_text_edit m"
  proof -
    let ?d = "data_in F0"
    from assms(1) have F0: "retext_list ?d F0 = F0"
      by (simp add: retext_data_in store_ok_def)
    with assms(1) have ok0: "store_ok (retext_list ?d F0)" by simp
    from structural_keeps_text [OF st assms(2) F0] have Fn0: "retext_list ?d Fn = Fn" .
    from undo_queue [OF ok0 assms(2,3), of s "[]" "[]"] assms(4,5) Fn0 F0 obtain ops0 where
      "compile_queue s [] = compile_queue ((set_queue s [])\<lparr>liveDOM := F0\<rparr>) ops0"
      by auto
    then have "compile_queue s [] = Inr ((set_queue s [])\<lparr>liveDOM := F0\<rparr>, ops0)"
      by (simp add: compile_queue_nil)
    with a have "liveDOM ((set_queue s [])\<lparr>liveDOM := retext_list ?e F0\<rparr>)
                  = liveDOM ((set_queue s [])\<lparr>liveDOM := F0\<rparr>)"
      by simp
    then show ?thesis by simp
  qed
  from a b show ?thesis by blast
qed

text \<open>Claim C1 on the small example: a keystroke, a removal and an insertion are rolled back
  to the two paragraphs with the text as typed; a removal and a replacement of one child by
  another are rolled back exactly.\<close>

theorem C1_structure_rolled_back_text_kept_witness:
  "store_ok [ex_root]
   \<and> mutations [ex_root] ex_edits
       = Some (liveDOM ex_edited, MutationQueue (DaemonState ex_edited))
   \<and> map (length \<circ> removedNodes) (MutationQueue (DaemonState ex_edited)) = [0, 1, 0]
   \<and> (\<exists>ops. compile_queue ex_edited [] = Inr ((set_queue ex_edited [])\<lparr>liveDOM := ex_typed\<rparr>, ops))
   \<and> mutations [ex_root] ex_moves
       = Some (liveDOM ex_moved, MutationQueue (DaemonState ex_moved))
   \<and> map (length \<circ> removedNodes) (MutationQueue (DaemonState ex_moved)) = [1, 1]
   \<and> filter is_text_edit ex_moves = []
   \<and> (\<exists>ops. compile_queue ex_moved [] = Inr ((set_queue ex_moved [])\<lparr>liveDOM := [ex_root]\<rparr>, ops))"
proof -
  have ok: "store_ok [ex_root]" by code_simp
  have m: "mutations [ex_root] ex_edits
             = Some (liveDOM ex_edited, MutationQueue (DaemonState ex_edited))"
    by code_simp
  have l: "map (length \<circ> removedNodes) (MutationQueue (DaemonState ex_edited)) = [0, 1, 0]"
    by (simp add: ex_edited_def ex_first_stroke_def)
  have t: "retext_list (data_in (liveDOM ex_edited)) [ex_root] = ex_typed" by code_simp
  have m': "mutations [ex_root] ex_moves
             = Some (liveDOM ex_moved, MutationQueue (DaemonState ex_moved))"
    by code_simp
  have l': "map (length \<circ> removedNodes) (MutationQueue (DaemonState ex_moved)) = [1, 1]"
    by (simp add: ex_moved_def)
  have s: "\<forall>m \<in> set ex_moves. \<not> is_text_edit m" by (simp add: ex_moves_def)
  have f: "filter is_text_edit ex_moves = []" by (simp add: ex_moves_def)
  have l1: "\<forall>r \<in> set (MutationQueue (DaemonState ex_edited)). length (removedNodes r) \<le> 1"
    by (simp add: ex_edited_def ex_first_stroke_def)
  have l1': "\<forall>r \<in> set (MutationQueue (DaemonState ex_moved)). length (removedNodes r) \<le> 1"
    by (simp add: ex_moved_def)
  from C1_structure_rolled_back_text_kept [OF ok m l1 refl refl] t
  have a: "\<exists>ops. compile_queue ex_edited [] =
             Inr ((set_queue ex_edited [])\<lparr>liveDOM := ex_typed\<rparr>, ops)"
    by simp
  from C1_structure_rolled_back_text_kept [OF ok m' l1' refl refl] s
  have b: "\<exists>ops. compile_queue ex_moved [] =
             Inr ((set_queue ex_moved [])\<lparr>liveDOM := [ex_root]\<rparr>, ops)"
    by auto
  from ok m l a m' l' f b show ?thesis by blast
qed

section \<open>Edits by identity and edits by position\<close>




















section \<open>Edits of the mirror\<close>



section \<open>Replaying one operation on the mirror of the watched element\<close>







section \<open>What an edit does to the watched element\<close>

lemma placeable_retext [simp]: "placeable (retext e w) (retext e x) = placeable w x"
  by (simp add: placeable_def)

lemma addressable_retext [simp]: "addressable (retext e w) = addressable w"
  by (simp add: addressable_def nodes_retext list_all_iff comp_def)

lemma preceding_retext:
  "length (preceding (retext e c) (retext e p)) = length (preceding c p)"
  by (simp add: preceding_def retext_list_map takeWhile_retext)

lemma position_retext: "position (map (retext e) xs) = position xs"
  by (induction xs rule: position.induct) (simp_all add: preceding_retext)



lemma retext_retext [simp]:
  "retext d (retext e t) = retext d t"
  "retext_list d (retext_list e ts) = retext_list d ts"
  by (induction e t and e ts rule: retext_retext_list.induct) auto



lemma data_of_retext [simp]: "(data_of (retext e t) = None) = (data_of t = None)"
  by (cases t rule: data_of.cases) auto


lemma data_of_element: "nodeType t = 1 \<Longrightarrow> data_of t = None"
  by (cases t rule: data_of.cases) auto







lemma getXPathFromNode_retext_fun [simp]:
  "getXPathFromNode (retext_list e F) w = getXPathFromNode F w"
  by (rule ext) simp







section \<open>Replaying the log of a batch\<close>









lemma toggleObserve_fields [simp]:
  "liveDOM (toggleObserve s b) = liveDOM s"
  "WatchElementRef (toggleObserve s b) = WatchElementRef s"
  "MirrorDocumentRef (toggleObserve s b) = MirrorDocumentRef s"
  "FinalizeChanges (toggleObserve s b) = FinalizeChanges s"
  "MutationQueue (DaemonState (toggleObserve s b)) = MutationQueue (DaemonState s)"
  by (simp_all add: toggleObserve_def)





end
